theory Spec2Isabelle
  imports Complex_Main "HOL-Library.AList" "HOL-Library.Word"
begin

section \<open>Errors\<close>

text \<open>
  The Python exceptions the modelled functions can raise. A function that can raise
  returns \<open>error + 'a\<close>, with \<open>Inl\<close> for the exception.
\<close>

datatype error = ValueError | JSONDecodeError | KeyError | TypeError | FileNotFoundError
  | FileExistsError

section \<open>Version strings and version keys\<close>

text \<open>
  \<open>str.replace(old, new)\<close> for a non-empty \<open>old\<close>: every non-overlapping occurrence of
  \<open>old\<close>, found from left to right, is replaced. (The source only calls it with the
  non-empty literals \<open>"1."\<close>, \<open>".json"\<close> and the backslash; for an empty \<open>old\<close> this
  function returns the string unchanged.)
\<close>

function py_replace :: "string \<Rightarrow> string \<Rightarrow> string \<Rightarrow> string" where
  "py_replace old new [] = []"
| "py_replace old new (c # cs) =
     (if old \<noteq> [] \<and> take (length old) (c # cs) = old
      then new @ py_replace old new (drop (length old) (c # cs))
      else c # py_replace old new cs)"
  by pat_completeness auto
termination
  by (relation "measure (\<lambda>(old, new, s). length s)") (auto simp: Suc_le_eq)

definition endswith :: "string \<Rightarrow> string \<Rightarrow> bool" where
  "endswith s suffix = (length suffix \<le> length s \<and> drop (length s - length suffix) s = suffix)"

text \<open>
  \<open>float(s)\<close> on a plain decimal literal: digits, optionally a point and more digits,
  with at least one digit in all. Anything else is a \<open>ValueError\<close> (\<open>None\<close>); the
  other literals Python accepts (sign, exponent, surrounding blanks, underscores,
  \<open>inf\<close>, \<open>nan\<close>) do not come from a version string of digits and points. The value
  is the exact rational the literal denotes: the rounding of Python's binary floating
  point, which keeps the order and tells apart literals of up to 15 significant digits,
  is left out. The resolver below takes the key function as a parameter, and its
  properties are proved for every key function into a linear order.
\<close>

definition digit_val :: "char \<Rightarrow> nat option" where
  "digit_val c =
     (let n = (of_char c :: nat)
      in if of_char CHR ''0'' \<le> n \<and> n \<le> of_char CHR ''9'' then Some (n - of_char CHR ''0'') else None)"

fun digits_val :: "nat \<Rightarrow> string \<Rightarrow> nat option" where
  "digits_val acc [] = Some acc"
| "digits_val acc (c # cs) =
     (case digit_val c of None \<Rightarrow> None | Some d \<Rightarrow> digits_val (10 * acc + d) cs)"

definition py_float :: "string \<Rightarrow> rat option" where
  "py_float s =
     (let ip = takeWhile (\<lambda>c. c \<noteq> CHR ''.'') s;
          fp = drop (Suc (length ip)) s
      in if ip = [] \<and> fp = [] then None
         else (case (digits_val 0 ip, digits_val 0 fp) of
                 (Some a, Some b) \<Rightarrow> Some (of_nat a + of_nat b / 10 ^ length fp)
               | _ \<Rightarrow> None))"

text \<open>\<open>float(version.replace('1.', ''))\<close>, the key every comparison of the resolver uses.\<close>

definition version_num :: "string \<Rightarrow> rat option" where
  "version_num version = py_float (py_replace ''1.'' '''' version)"

text \<open>\<open>get_version_category\<close>: the key compared with the fixed bounds 19.4 and 20.6.\<close>

definition get_version_category :: "string \<Rightarrow> error + string" where
  "get_version_category version =
     (case version_num version of
        None \<Rightarrow> Inl ValueError
      | Some n \<Rightarrow>
          if n \<le> 194 / 10 then Inr ''1.19''
          else if n \<le> 206 / 10 then Inr ''1.20''
          else Inr ''1.21'')"

section \<open>Version configuration records\<close>

text \<open>
  One JSON document per version, read per the record's schema: a rectangle is
  \<open>[left, top, right, bottom]\<close>, a position is \<open>[x, y]\<close>. A dictionary is an association
  list in the dictionary's iteration order. \<open>config.get(field, default)\<close> reads an absent
  field as the empty list; \<open>versions\<close> is \<open>None\<close> when the document has no such field.
\<close>

type_synonym box = "int \<times> int \<times> int \<times> int"

record config =
  versions :: "string list option"
  removed_files :: "string list"
  split_operations :: "(string \<times> (box \<times> string) list) list"
  merge_operations :: "(string \<times> (string \<times> (int \<times> int)) list) list"
  transparency_operations :: "(string \<times> (string \<times> box)) list"

text \<open>
  The configuration directory as \<open>os.listdir\<close> lists it: each file name with what
  \<open>json.load\<close> makes of the file, \<open>None\<close> when the file is not valid JSON.
\<close>

type_synonym config_dir = "(string \<times> config option) list"

text \<open>
  \<open>load_version_configs\<close>: no exception handler, so the first malformed file ends the
  load with the decoder's exception.
\<close>

fun load_loop :: "(string \<times> config) list \<Rightarrow> config_dir \<Rightarrow> error + (string \<times> config) list" where
  "load_loop configs [] = Inr configs"
| "load_loop configs ((file, doc) # rest) =
     (if endswith file ''.json''
      then (case doc of
              None \<Rightarrow> Inl JSONDecodeError
            | Some cfg \<Rightarrow> load_loop (AList.update (py_replace ''.json'' '''' file) cfg configs) rest)
      else load_loop configs rest)"

definition load_version_configs :: "config_dir \<Rightarrow> error + (string \<times> config) list" where
  "load_version_configs dir = load_loop [] dir"

text \<open>
  \<open>get_available_versions\<close>, the loop over the directory: each file is read inside
  \<open>try\<close>, a failure prints a diagnostic and the loop goes on. The state is the set of
  versions and the list of diagnostics printed (the file names). The final sort of the
  set is not modelled.
\<close>

fun available_loop :: "string set \<times> string list \<Rightarrow> config_dir \<Rightarrow> string set \<times> string list" where
  "available_loop st [] = st"
| "available_loop (vs, diags) ((file, doc) # rest) =
     (if endswith file ''.json''
      then (case doc of
              None \<Rightarrow> available_loop (vs, diags @ [file]) rest
            | Some cfg \<Rightarrow>
                (case versions cfg of
                   None \<Rightarrow> available_loop (vs, diags) rest
                 | Some declared \<Rightarrow> available_loop (vs \<union> set declared, diags) rest))
      else available_loop (vs, diags) rest)"

definition get_available_versions :: "config_dir \<Rightarrow> string set \<times> string list" where
  "get_available_versions dir = available_loop ({}, []) dir"

section \<open>Version path resolution\<close>

text \<open>
  The \<open>for\<close> loop of \<open>get_version_operations\<close> over \<open>configs.items()\<close>. \<open>up\<close> is
  \<open>target_num > source_num\<close>. The pair \<open>next_version, next_num\<close> is \<open>None\<close> while
  \<open>next_version\<close> is \<open>None\<close> and \<open>next_num\<close> is the infinity of the direction, which
  every key is below (above).
\<close>

fun closer :: "bool \<Rightarrow> 'k::linorder \<Rightarrow> (string \<times> 'k) option \<Rightarrow> bool" where
  "closer up n None = True"
| "closer up n (Some (v, next_num)) = (if up then n < next_num else n > next_num)"

text \<open>A key on the way from the current key to the target's, the target's included.\<close>

definition on_the_way :: "bool \<Rightarrow> 'k::linorder \<Rightarrow> 'k \<Rightarrow> 'k \<Rightarrow> bool" where
  "on_the_way up cur tgt n = (if up then cur < n \<and> n \<le> tgt else n < cur \<and> tgt \<le> n)"

fun select_next ::
  "(string \<Rightarrow> 'k::linorder option) \<Rightarrow> bool \<Rightarrow> 'k \<Rightarrow> 'k \<Rightarrow> (string \<times> 'c) list \<Rightarrow>
   (string \<times> 'k) option \<Rightarrow> error + (string \<times> 'k) option" where
  "select_next key up cur target_num [] nxt = Inr nxt"
| "select_next key up cur target_num ((version, cfg) # rest) nxt =
     (case key version of
        None \<Rightarrow> Inl ValueError
      | Some n \<Rightarrow>
          if up then
            (if n > cur \<and> n \<le> target_num \<and> closer up n nxt
             then select_next key up cur target_num rest (Some (version, n))
             else select_next key up cur target_num rest nxt)
          else
            (if n < cur \<and> n \<ge> target_num \<and> closer up n nxt
             then select_next key up cur target_num rest (Some (version, n))
             else select_next key up cur target_num rest nxt))"

text \<open>
  The keys still ahead of the current one in the direction of travel: the measure of the
  \<open>while\<close> loop.
\<close>

definition ahead :: "(string \<Rightarrow> 'k::linorder option) \<Rightarrow> (string \<times> 'c) list \<Rightarrow> bool \<Rightarrow> 'k \<Rightarrow> 'k set" where
  "ahead key configs up cur =
     {n. \<exists>v \<in> fst ` set configs. key v = Some n \<and> (if up then cur < n else n < cur)}"

lemma finite_ahead: "finite (ahead key configs up cur)"
proof -
  have "ahead key configs up cur \<subseteq> the ` key ` fst ` set configs"
    by (force simp: ahead_def)
  then show ?thesis by (rule finite_subset) simp
qed

lemma select_next_found:
  "select_next key up cur tgt configs nxt = Inr (Some (v, n)) \<Longrightarrow>
   nxt = Some (v, n) \<or>
   (v \<in> fst ` set configs \<and> key v = Some n \<and>
    (if up then cur < n \<and> n \<le> tgt else n < cur \<and> tgt \<le> n))"
proof (induction configs arbitrary: nxt)
  case Nil
  then show ?case by simp
next
  case (Cons a configs)
  obtain version cfg where a: "a = (version, cfg)" by (cases a)
  from Cons.prems a obtain k where k: "key version = Some k"
    by (cases "key version") auto
  show ?case
  proof (cases "(if up then k > cur \<and> k \<le> tgt else k < cur \<and> k \<ge> tgt) \<and> closer up k nxt")
    case True
    with Cons.prems a k have "select_next key up cur tgt configs (Some (version, k)) = Inr (Some (v, n))"
      by (auto split: if_splits)
    from Cons.IH[OF this] True a k show ?thesis by (auto split: if_splits)
  next
    case False
    with Cons.prems a k have "select_next key up cur tgt configs nxt = Inr (Some (v, n))"
      by (auto split: if_splits)
    from Cons.IH[OF this] a show ?thesis by auto
  qed
qed

lemma ahead_decreases:
  assumes "select_next key up cur tgt configs None = Inr (Some (v, n))"
  shows "ahead key configs up n \<subset> ahead key configs up cur"
proof -
  from select_next_found[OF assms]
  have f: "v \<in> fst ` set configs" "key v = Some n" "if up then cur < n else n < cur"
    by (auto split: if_splits)
  have "n \<in> ahead key configs up cur" using f by (auto simp: ahead_def)
  moreover have "n \<notin> ahead key configs up n" by (auto simp: ahead_def)
  moreover have "ahead key configs up n \<subseteq> ahead key configs up cur"
    using f(3) by (fastforce simp: ahead_def split: if_splits)
  ultimately show ?thesis by blast
qed

text \<open>
  The \<open>while\<close> loop of \<open>get_version_operations\<close>. \<open>cur\<close> is the key of
  \<open>current_version\<close>. The loop ends when the key equals the target's, or at \<open>break\<close>
  when the scan found no candidate.
\<close>

function path_loop ::
  "(string \<Rightarrow> 'k::linorder option) \<Rightarrow> (string \<times> 'c) list \<Rightarrow> bool \<Rightarrow> 'k \<Rightarrow> 'k \<Rightarrow> string list \<Rightarrow>
   error + string list" where
  "path_loop key configs up target_num cur version_path =
     (if cur = target_num then Inr version_path
      else (case select_next key up cur target_num configs None of
              Inl e \<Rightarrow> Inl e
            | Inr None \<Rightarrow> Inr version_path
            | Inr (Some (next_version, next_num)) \<Rightarrow>
                path_loop key configs up target_num next_num (version_path @ [next_version])))"
  by pat_completeness auto
termination
  by (relation "measure (\<lambda>(key, configs, up, target_num, cur, version_path). card (ahead key configs up cur))")
     (auto intro!: psubset_card_mono finite_ahead ahead_decreases)

text \<open>The final loop: \<open>configs[version]\<close> for each version of the path.\<close>

fun collect_operations :: "(string \<times> 'c) list \<Rightarrow> string list \<Rightarrow> error + (string \<times> 'c) list" where
  "collect_operations configs [] = Inr []"
| "collect_operations configs (version # rest) =
     (case map_of configs version of
        None \<Rightarrow> Inl KeyError
      | Some cfg \<Rightarrow>
          (case collect_operations configs rest of
             Inl e \<Rightarrow> Inl e
           | Inr ops \<Rightarrow> Inr ((version, cfg) # ops)))"

definition resolve ::
  "(string \<Rightarrow> 'k::linorder option) \<Rightarrow> (string \<times> 'c) list \<Rightarrow> string \<Rightarrow> string \<Rightarrow>
   error + (string \<times> 'c) list" where
  "resolve key configs source_version target_version =
     (case key source_version of
        None \<Rightarrow> Inl ValueError
      | Some source_num \<Rightarrow>
          (case key target_version of
             None \<Rightarrow> Inl ValueError
           | Some target_num \<Rightarrow>
               (case path_loop key configs (target_num > source_num) target_num source_num [] of
                  Inl e \<Rightarrow> Inl e
                | Inr version_path \<Rightarrow> collect_operations configs version_path)))"

text \<open>
  \<open>get_version_operations\<close>: the configurations are loaded first, then the path is
  resolved with the key \<open>version_num\<close>.
\<close>

definition get_version_operations ::
  "config_dir \<Rightarrow> string \<Rightarrow> string \<Rightarrow> error + (string \<times> config) list" where
  "get_version_operations dir source_version target_version =
     (case load_version_configs dir of
        Inl e \<Rightarrow> Inl e
      | Inr configs \<Rightarrow> resolve version_num configs source_version target_version)"

section \<open>Files, images and the platform\<close>

text \<open>
  A decoded image: its size and its pixel access object, \<open>pixels[x, y]\<close>, in mode RGBA
  (what \<open>convert('RGBA')\<close> returns). The codec is left out: a file that holds an image
  is the image, saving and opening again gives the image back.
\<close>

type_synonym pixel = "8 word \<times> 8 word \<times> 8 word \<times> 8 word"

record image =
  width :: nat
  height :: nat
  pixels :: "nat \<times> nat \<Rightarrow> pixel"

datatype json = JNull | JBool bool | JNum int | JStr string | JArr "json list"
  | JObj "(string \<times> json) list"

text \<open>
  What a file holds: an image (\<open>Image.open\<close> succeeds), a JSON document (\<open>json.load\<close>
  succeeds, giving the dictionary as an association list), or bytes that are neither.
\<close>

datatype content = Image image | Json json | Blob string

text \<open>
  A directory tree as an association list from the tree-relative path of each file, as
  \<open>os.path.relpath\<close> writes it, to what the file holds; the order is the order in which
  \<open>os.walk\<close> visits the files. Paths in the configuration records are taken to be
  written the same way and to name files: another spelling of a path (\<open>./a.png\<close>) and
  a path that names a directory are outside this model of the file system.
  The source pack directory and the working copy are two such trees.
\<close>

type_synonym store = "(string \<times> content) list"

definition exists_in :: "store \<Rightarrow> string \<Rightarrow> bool" where
  "exists_in st path = (map_of st path \<noteq> None)"

text \<open>
  What the program takes from its platform: the path separator \<open>os.sep\<close>; the two
  operations of the imaging library it calls, \<open>img.crop(box)\<close> and
  \<open>base.paste(overlay, position, overlay)\<close>, where \<open>None\<close> is an exception of the
  library; whether the library saves a given image under a given path (it raises on a
  path whose extension names no format it can write, and on an empty image); and
  whether, in a given working copy, a call of a step that stands outside the helpers' own
  handlers raises: the \<open>os.makedirs\<close> and \<open>shutil.copy2\<close> of the transparency and
  sidecar loops (a parent that is a file, a source that is a directory, a disk that is
  full).
\<close>

record platform =
  sep :: char
  crop :: "image \<Rightarrow> box \<Rightarrow> image option"
  paste :: "image \<Rightarrow> image \<Rightarrow> int \<times> int \<Rightarrow> image option"
  can_save :: "string \<Rightarrow> image \<Rightarrow> bool"
  io_error :: "store \<Rightarrow> string \<times> config \<Rightarrow> bool"

definition backslash :: string where
  "backslash = [CHR 0x5C]"

definition join :: "char \<Rightarrow> string \<Rightarrow> string \<Rightarrow> string" where
  "join s a b =
     (if b \<noteq> [] \<and> hd b = s then b
      else if a = [] \<or> last a = s then a @ b
      else a @ [s] @ b)"

section \<open>Image operations\<close>

text \<open>
  \<open>split_image\<close>: the source image is opened in the source pack directory, the crop is
  saved in the working copy under the target path. Every exception is caught, that of
  the save included: the result is \<open>False\<close> and nothing is written.
\<close>

definition split_image ::
  "platform \<Rightarrow> store \<Rightarrow> string \<Rightarrow> box \<Rightarrow> string \<Rightarrow> store \<Rightarrow> bool \<times> store" where
  "split_image pf src image_path crop_box target_path tree =
     (case map_of src image_path of
        Some (Image img) \<Rightarrow>
          (case crop pf img crop_box of
             Some cropped \<Rightarrow>
               if can_save pf target_path cropped
               then (True, AList.update target_path (Image cropped) tree)
               else (False, tree)
           | None \<Rightarrow> (False, tree))
      | _ \<Rightarrow> (False, tree))"

text \<open>
  \<open>merge_images\<close>, as its one caller uses it: the base image is opened in the working
  copy, the overlay in the source pack directory, and the result is saved under the path
  the base was opened from.
\<close>

definition merge_images ::
  "platform \<Rightarrow> store \<Rightarrow> string \<Rightarrow> string \<Rightarrow> int \<times> int \<Rightarrow> store \<Rightarrow> bool \<times> store" where
  "merge_images pf src base_path overlay_path position tree =
     (case map_of tree base_path of
        Some (Image base) \<Rightarrow>
          (case map_of src overlay_path of
             Some (Image overlay) \<Rightarrow>
               (case paste pf base overlay position of
                  Some merged \<Rightarrow> (True, AList.update base_path (Image merged) tree)
                | None \<Rightarrow> (False, tree))
           | _ \<Rightarrow> (False, tree))
      | _ \<Rightarrow> (False, tree))"

text \<open>
  \<open>apply_transparency\<close>: the two nested loops over \<open>range(height)\<close> and
  \<open>range(width)\<close>; a pixel outside the keep area (bounds inclusive) gets alpha 0.
\<close>

definition in_keep_area :: "box \<Rightarrow> nat \<Rightarrow> nat \<Rightarrow> bool" where
  "in_keep_area keep_area x y =
     (case keep_area of (k0, k1, k2, k3) \<Rightarrow>
        k0 \<le> int x \<and> int x \<le> k2 \<and> k1 \<le> int y \<and> int y \<le> k3)"

definition clear_alpha :: "pixel \<Rightarrow> pixel" where
  "clear_alpha p = (case p of (r, g, b, a) \<Rightarrow> (r, g, b, 0))"

definition mask_at :: "box \<Rightarrow> nat \<Rightarrow> nat \<Rightarrow> (nat \<times> nat \<Rightarrow> pixel) \<Rightarrow> (nat \<times> nat \<Rightarrow> pixel)" where
  "mask_at keep_area y x px =
     (if \<not> in_keep_area keep_area x y then px((x, y) := clear_alpha (px (x, y))) else px)"

definition mask_image :: "box \<Rightarrow> image \<Rightarrow> image" where
  "mask_image keep_area img =
     img\<lparr>pixels :=
       fold (\<lambda>y. fold (mask_at keep_area y) [0..<width img]) [0..<height img] (pixels img)\<rparr>"

definition apply_transparency :: "string \<Rightarrow> box \<Rightarrow> store \<Rightarrow> bool \<times> store" where
  "apply_transparency image_path keep_area tree =
     (case map_of tree image_path of
        Some (Image img) \<Rightarrow> (True, AList.update image_path (Image (mask_image keep_area img)) tree)
      | _ \<Rightarrow> (False, tree))"

section \<open>Applying one version's configuration\<close>

text \<open>
  The loops of \<open>process_version_conversion\<close>. \<open>src\<close> is the source pack directory
  (\<open>source_path\<close>), \<open>tree\<close> the working copy (\<open>target_path\<close>). The results of
  \<open>split_image\<close>, \<open>merge_images\<close> and \<open>apply_transparency\<close> are ignored, as in the
  source.
\<close>

definition split_step :: "platform \<Rightarrow> store \<Rightarrow> string \<Rightarrow> box \<times> string \<Rightarrow> store \<Rightarrow> store" where
  "split_step pf src source_file split tree =
     snd (split_image pf src source_file (fst split) (snd split) tree)"

definition split_entry :: "platform \<Rightarrow> store \<Rightarrow> string \<times> (box \<times> string) list \<Rightarrow> store \<Rightarrow> store" where
  "split_entry pf src entry tree =
     (if exists_in src (fst entry) then fold (split_step pf src (fst entry)) (snd entry) tree
      else tree)"

definition merge_step :: "platform \<Rightarrow> store \<Rightarrow> string \<Rightarrow> string \<times> (int \<times> int) \<Rightarrow> store \<Rightarrow> store" where
  "merge_step pf src target_file merge tree =
     (if exists_in src (fst merge)
      then snd (merge_images pf src target_file (fst merge) (snd merge) tree)
      else tree)"

definition merge_entry ::
  "platform \<Rightarrow> store \<Rightarrow> string \<times> (string \<times> (int \<times> int)) list \<Rightarrow> store \<Rightarrow> store" where
  "merge_entry pf src entry tree = fold (merge_step pf src (fst entry)) (snd entry) tree"

definition copy2 :: "store \<Rightarrow> string \<Rightarrow> string \<Rightarrow> store \<Rightarrow> store" where
  "copy2 src source_file target_file tree =
     (case map_of src source_file of
        Some data \<Rightarrow> AList.update target_file data tree
      | None \<Rightarrow> tree)"

definition transparency_entry :: "store \<Rightarrow> string \<times> (string \<times> box) \<Rightarrow> store \<Rightarrow> store" where
  "transparency_entry src entry tree =
     (if exists_in src (fst entry)
      then snd (apply_transparency (fst (snd entry)) (snd (snd entry))
                  (copy2 src (fst entry) (fst (snd entry)) tree))
      else tree)"

text \<open>
  The sidecar files of one version: the \<open>.mcmeta\<close> files of the version's metadata
  directory, each with the directory it is in (relative to the version's directory,
  \<open>.\<close> for the directory itself) as \<open>os.walk\<close> and \<open>os.path.relpath\<close> give them.
\<close>

type_synonym mcmeta_dir = "(string \<times> string \<times> content) list"

definition is_split_target :: "platform \<Rightarrow> config \<Rightarrow> string \<Rightarrow> string \<Rightarrow> bool" where
  "is_split_target pf cfg rel_path original_file =
     list_ex (\<lambda>entry. list_ex (\<lambda>split.
         py_replace backslash ''/'' (snd split)
           = py_replace backslash ''/'' (join (sep pf) rel_path original_file)) (snd entry))
       (split_operations cfg)"

definition tree_path :: "platform \<Rightarrow> string \<Rightarrow> string \<Rightarrow> string" where
  "tree_path pf rel_path name = (if rel_path = ''.'' then name else join (sep pf) rel_path name)"

definition mcmeta_step :: "platform \<Rightarrow> config \<Rightarrow> string \<times> string \<times> content \<Rightarrow> store \<Rightarrow> store" where
  "mcmeta_step pf cfg entry tree =
     (case entry of (rel_path, file, data) \<Rightarrow>
        if endswith file ''.mcmeta'' then
          (let original_file = take (length file - 7) file
           in if is_split_target pf cfg rel_path original_file
                 \<or> exists_in tree (tree_path pf rel_path original_file)
              then AList.update (tree_path pf rel_path file) data tree
              else tree)
        else tree)"

definition process_mcmeta :: "platform \<Rightarrow> config \<Rightarrow> mcmeta_dir option \<Rightarrow> store \<Rightarrow> store" where
  "process_mcmeta pf cfg dir tree =
     (case dir of None \<Rightarrow> tree | Some files \<Rightarrow> fold (mcmeta_step pf cfg) files tree)"

text \<open>One iteration of \<open>for operation in operations\<close>.\<close>

definition process_operation ::
  "platform \<Rightarrow> store \<Rightarrow> (string \<Rightarrow> mcmeta_dir option) \<Rightarrow> string \<times> config \<Rightarrow>
   store \<times> string set \<Rightarrow> store \<times> string set" where
  "process_operation pf src mcmeta operation st =
     (let cfg = snd operation;
          exclude_files = snd st \<union> set (removed_files cfg);
          tree = fold (split_entry pf src) (split_operations cfg) (fst st);
          tree = fold (merge_entry pf src) (merge_operations cfg) tree;
          tree = fold (transparency_entry src) (transparency_operations cfg) tree;
          tree = process_mcmeta pf cfg (mcmeta (fst operation)) tree
      in (tree, exclude_files))"

text \<open>
  The loop \<open>for operation in operations\<close> inside the \<open>try\<close> of
  \<open>process_version_conversion\<close>. An exception in a step reaches the handler, which
  returns \<open>False\<close> with the exclusion set as it is then (the step's removed files are
  added first); the later steps do not run. The working copy such a run leaves is never
  read: \<open>on_confirm\<close> saves nothing and removes the directory.
\<close>

fun run_operations ::
  "platform \<Rightarrow> store \<Rightarrow> (string \<Rightarrow> mcmeta_dir option) \<Rightarrow> (string \<times> config) list \<Rightarrow>
   store \<times> string set \<Rightarrow> bool \<times> string set \<times> store" where
  "run_operations pf src mcmeta [] st = (True, snd st, fst st)"
| "run_operations pf src mcmeta (operation # rest) st =
     (if io_error pf (fst st) operation
      then (False, snd st \<union> set (removed_files (snd operation)), fst st)
      else run_operations pf src mcmeta rest (process_operation pf src mcmeta operation st))"

text \<open>
  \<open>process_version_conversion\<close>. The call of \<open>get_version_operations\<close> is outside the
  \<open>try\<close>, so its exception reaches the caller. The result is the success flag and the
  exclusion set; the working copy is returned with them.
\<close>

definition process_version_conversion ::
  "platform \<Rightarrow> config_dir \<Rightarrow> (string \<Rightarrow> mcmeta_dir option) \<Rightarrow> store \<Rightarrow> store \<Rightarrow> string \<Rightarrow> string \<Rightarrow>
   error + (bool \<times> string set \<times> store)" where
  "process_version_conversion pf dir mcmeta src tree source_version target_version =
     (case get_version_operations dir source_version target_version of
        Inl e \<Rightarrow> Inl e
      | Inr operations \<Rightarrow> Inr (run_operations pf src mcmeta operations (tree, {})))"

section \<open>Packaging\<close>

text \<open>The table of \<open>on_confirm\<close> from target version to format code, and its default.\<close>

definition version_format :: "(string \<times> int) list" where
  "version_format =
     [(''1.16.5'', 6), (''1.17.1'', 7), (''1.18.2'', 8), (''1.19.2'', 9), (''1.19.3'', 12),
      (''1.19.4'', 13), (''1.20.1'', 15), (''1.20.2'', 18), (''1.20.4'', 26), (''1.21'', 30)]"

definition format_code :: "string \<Rightarrow> int" where
  "format_code target = (case map_of version_format target of Some code \<Rightarrow> code | None \<Rightarrow> 15)"

text \<open>
  \<open>mcmeta['pack']['pack_format'] = code\<close> on the value \<open>json.load\<close> returned: a
  \<open>KeyError\<close> when the dictionary has no \<open>pack\<close>, a \<open>TypeError\<close> when the document or
  its \<open>pack\<close> is not a dictionary.
\<close>

definition set_pack_format :: "int \<Rightarrow> json \<Rightarrow> error + json" where
  "set_pack_format code mcmeta =
     (case mcmeta of
        JObj members \<Rightarrow>
          (case map_of members ''pack'' of
             None \<Rightarrow> Inl KeyError
           | Some (JObj pack) \<Rightarrow>
               Inr (JObj (AList.update ''pack''
                      (JObj (AList.update ''pack_format'' (JNum code) pack)) members))
           | Some _ \<Rightarrow> Inl TypeError)
      | _ \<Rightarrow> Inl TypeError)"

text \<open>The rewrite of \<open>pack.mcmeta\<close> in the working copy, when the file exists.\<close>

definition update_pack_mcmeta :: "string \<Rightarrow> store \<Rightarrow> error + store" where
  "update_pack_mcmeta target tree =
     (case map_of tree ''pack.mcmeta'' of
        None \<Rightarrow> Inr tree
      | Some (Json mcmeta) \<Rightarrow>
          (case set_pack_format (format_code target) mcmeta of
             Inl e \<Rightarrow> Inl e
           | Inr mcmeta' \<Rightarrow> Inr (AList.update ''pack.mcmeta'' (Json mcmeta') tree))
      | Some _ \<Rightarrow> Inl JSONDecodeError)"

text \<open>
  The walk that fills the archive: an entry is the archive name (the tree-relative path
  with every backslash replaced by a slash) and the file's content.
\<close>

fun write_zip :: "string set \<Rightarrow> store \<Rightarrow> (string \<times> content) list \<Rightarrow> (string \<times> content) list" where
  "write_zip exclude_files [] zipf = zipf"
| "write_zip exclude_files ((file_path, data) # rest) zipf =
     (let rel_path = py_replace backslash ''/'' file_path
      in if rel_path \<notin> exclude_files
         then write_zip exclude_files rest (zipf @ [(rel_path, data)])
         else write_zip exclude_files rest zipf)"

section \<open>A conversion run\<close>

text \<open>
  What \<open>on_confirm\<close> leaves: the archive written, nothing written (the conversion
  reported failure, or the save dialog was cancelled), or the exception its handler
  caught.
\<close>

datatype outcome = Saved "(string \<times> content) list" | NotSaved | Failed error

text \<open>
  The \<open>try\<close> block of \<open>on_confirm\<close>. \<open>pack\<close> is the source pack directory (\<open>None\<close>
  when it does not exist), \<open>temp_dir\<close> the temporary directory (\<open>None\<close> when it does
  not exist; \<open>copytree\<close> raises when its source is missing or its destination exists),
  \<open>save_path\<close> the answer of the save dialog (empty when cancelled). The result is the
  temporary directory as the block leaves it and the outcome.
\<close>

definition convert ::
  "platform \<Rightarrow> config_dir \<Rightarrow> (string \<Rightarrow> mcmeta_dir option) \<Rightarrow> store option \<Rightarrow> store option \<Rightarrow>
   string \<Rightarrow> string \<Rightarrow> string \<Rightarrow> store option \<times> outcome" where
  "convert pf dir mcmeta pack temp_dir source target save_path =
     (case pack of
        None \<Rightarrow> (temp_dir, Failed FileNotFoundError)
      | Some src \<Rightarrow>
          (case temp_dir of
             Some old \<Rightarrow> (temp_dir, Failed FileExistsError)
           | None \<Rightarrow>
               (case update_pack_mcmeta target src of
                  Inl e \<Rightarrow> (Some src, Failed e)
                | Inr tree \<Rightarrow>
                    (case process_version_conversion pf dir mcmeta src tree source target of
                       Inl e \<Rightarrow> (Some tree, Failed e)
                     | Inr (success, exclude_files, tree') \<Rightarrow>
                         if success then
                           (if save_path \<noteq> []
                            then (Some tree', Saved (write_zip exclude_files tree' []))
                            else (Some tree', NotSaved))
                         else (Some tree', NotSaved)))))"

text \<open>\<open>if os.path.exists(temp_dir): shutil.rmtree(temp_dir)\<close>.\<close>

definition remove_temp_dir :: "store option \<Rightarrow> store option" where
  "remove_temp_dir temp_dir = (case temp_dir of None \<Rightarrow> None | Some tree \<Rightarrow> None)"

text \<open>
  \<open>on_confirm\<close>: a temporary directory left by an earlier run is removed, the \<open>try\<close>
  block runs, and \<open>finally\<close> removes the directory again. The result is the temporary
  directory and the outcome when control returns.
\<close>

definition on_confirm ::
  "platform \<Rightarrow> config_dir \<Rightarrow> (string \<Rightarrow> mcmeta_dir option) \<Rightarrow> store option \<Rightarrow> store option \<Rightarrow>
   string \<Rightarrow> string \<Rightarrow> string \<Rightarrow> store option \<times> outcome" where
  "on_confirm pf dir mcmeta pack temp_dir source target save_path =
     (case convert pf dir mcmeta pack (remove_temp_dir temp_dir) source target save_path of
        (temp_dir', result) \<Rightarrow> (remove_temp_dir temp_dir', result))"

section \<open>What a plan can observe of the working copy\<close>

text \<open>
  The paths a plan's merge operations target, and the paths whose existence in the
  working copy its sidecar propagation tests.
\<close>

definition merge_targets :: "(string \<times> config) list \<Rightarrow> string set" where
  "merge_targets operations =
     (\<Union>operation \<in> set operations. fst ` set (merge_operations (snd operation)))"

definition sidecar_originals_of :: "platform \<Rightarrow> mcmeta_dir option \<Rightarrow> string set" where
  "sidecar_originals_of pf dir =
     (case dir of
        None \<Rightarrow> {}
      | Some files \<Rightarrow>
          (\<lambda>entry. tree_path pf (fst entry) (take (length (fst (snd entry)) - 7) (fst (snd entry))))
            ` set (filter (\<lambda>entry. endswith (fst (snd entry)) ''.mcmeta'') files))"

definition sidecar_originals ::
  "platform \<Rightarrow> (string \<Rightarrow> mcmeta_dir option) \<Rightarrow> (string \<times> config) list \<Rightarrow> string set" where
  "sidecar_originals pf mcmeta operations =
     (\<Union>operation \<in> set operations. sidecar_originals_of pf (mcmeta (fst operation)))"

text \<open>
  Two working copies look the same to a plan: they hold the same content at every path of
  \<open>A\<close>, and the same paths of \<open>S\<close> exist in both.
\<close>

definition observes_same :: "string set \<Rightarrow> string set \<Rightarrow> store \<Rightarrow> store \<Rightarrow> bool" where
  "observes_same A S t1 t2 =
     ((\<forall>p \<in> A. map_of t1 p = map_of t2 p) \<and> (\<forall>p \<in> S. exists_in t1 p = exists_in t2 p))"

text \<open>The paths a plan can write in the working copy, and the paths it excludes.\<close>

definition write_targets_of :: "platform \<Rightarrow> mcmeta_dir option \<Rightarrow> config \<Rightarrow> string set" where
  "write_targets_of pf dir cfg =
     (\<Union>entry \<in> set (split_operations cfg). snd ` set (snd entry))
     \<union> fst ` set (merge_operations cfg)
     \<union> (\<lambda>entry. fst (snd entry)) ` set (transparency_operations cfg)
     \<union> (case dir of
          None \<Rightarrow> {}
        | Some files \<Rightarrow> (\<lambda>entry. tree_path pf (fst entry) (fst (snd entry))) ` set files)"

definition write_targets ::
  "platform \<Rightarrow> (string \<Rightarrow> mcmeta_dir option) \<Rightarrow> (string \<times> config) list \<Rightarrow> string set" where
  "write_targets pf mcmeta operations =
     (\<Union>operation \<in> set operations. write_targets_of pf (mcmeta (fst operation)) (snd operation))"

definition removed_by :: "(string \<times> config) list \<Rightarrow> string set" where
  "removed_by operations = (\<Union>operation \<in> set operations. set (removed_files (snd operation)))"

text \<open>
  The paths under whose file name a plan can write: its write targets, and the sources
  of its transparency operations, since \<open>shutil.copy2\<close> onto a target that is a
  directory writes a file of the source's name.
\<close>

definition write_names_of :: "platform \<Rightarrow> mcmeta_dir option \<Rightarrow> config \<Rightarrow> string set" where
  "write_names_of pf dir cfg =
     write_targets_of pf dir cfg \<union> fst ` set (transparency_operations cfg)"

definition write_names ::
  "platform \<Rightarrow> (string \<Rightarrow> mcmeta_dir option) \<Rightarrow> (string \<times> config) list \<Rightarrow> string set" where
  "write_names pf mcmeta operations =
     (\<Union>operation \<in> set operations. write_names_of pf (mcmeta (fst operation)) (snd operation))"

text \<open>
  A path whose last component, after the last slash or backslash and without regard to
  the case of its letters, is \<open>pack.mcmeta\<close>.
\<close>

definition lower :: "char \<Rightarrow> char" where
  "lower c =
     (case map_of (zip ''ABCDEFGHIJKLMNOPQRSTUVWXYZ'' ''abcdefghijklmnopqrstuvwxyz'') c of
        Some l \<Rightarrow> l
      | None \<Rightarrow> c)"

definition basename :: "string \<Rightarrow> string" where
  "basename path = rev (takeWhile (\<lambda>c. c \<noteq> CHR ''/'' \<and> c \<noteq> CHR 0x5C) (rev path))"

definition names_pack_mcmeta :: "string \<Rightarrow> bool" where
  "names_pack_mcmeta path = (map lower (basename path) = ''pack.mcmeta'')"

text \<open>\<open>mcmeta['pack']['pack_format']\<close> of a file that holds a JSON document.\<close>

definition pack_format_of :: "content \<Rightarrow> json option" where
  "pack_format_of data =
     (case data of
        Json (JObj members) \<Rightarrow>
          (case map_of members ''pack'' of
             Some (JObj pack) \<Rightarrow> map_of pack ''pack_format''
           | _ \<Rightarrow> None)
      | _ \<Rightarrow> None)"

section \<open>Sample data\<close>

text \<open>
  Concrete inputs on which the model is run: a configuration directory, a platform (POSIX
  separator, a crop that copies the pixels of the rectangle, a paste that copies every
  overlay pixel that is not fully transparent, every save succeeding, no input or output
  error), and a small pack. The theorems below
  hold for every platform; the sample one only serves to evaluate them.
\<close>

definition no_ops :: config where
  "no_ops = \<lparr>versions = None, removed_files = [], split_operations = [],
     merge_operations = [], transparency_operations = []\<rparr>"

definition demo_config_dir :: config_dir where
  "demo_config_dir =
     [(''1.20.2.json'', Some (no_ops\<lparr>versions := Some [''1.20.2'', ''1.20.4'']\<rparr>)),
      (''mcmetaFile'', None),
      (''1.19.4.json'', Some (no_ops\<lparr>versions := Some [''1.19.4'']\<rparr>)),
      (''1.21.json'', Some (no_ops\<lparr>removed_files := [''a.png'']\<rparr>))]"

definition demo_configs :: "(string \<times> config) list" where
  "demo_configs =
     [(''1.20.2'', no_ops\<lparr>versions := Some [''1.20.2'', ''1.20.4'']\<rparr>),
      (''1.19.4'', no_ops\<lparr>versions := Some [''1.19.4'']\<rparr>),
      (''1.21'', no_ops\<lparr>removed_files := [''a.png'']\<rparr>)]"

definition demo_crop :: "image \<Rightarrow> box \<Rightarrow> image option" where
  "demo_crop img crop_box =
     (case crop_box of (l, t, r, b) \<Rightarrow>
        if r < l \<or> b < t then None
        else Some \<lparr>width = nat (r - l), height = nat (b - t),
                   pixels = (\<lambda>q. pixels img (nat (l + int (fst q)), nat (t + int (snd q))))\<rparr>)"

definition demo_paste :: "image \<Rightarrow> image \<Rightarrow> int \<times> int \<Rightarrow> image option" where
  "demo_paste base overlay position =
     Some (base\<lparr>pixels := (\<lambda>q.
        let x = int (fst q) - fst position; y = int (snd q) - snd position
        in if 0 \<le> x \<and> x < int (width overlay) \<and> 0 \<le> y \<and> y < int (height overlay)
              \<and> snd (snd (snd (pixels overlay (nat x, nat y)))) \<noteq> 0
           then pixels overlay (nat x, nat y) else pixels base q)\<rparr>)"

definition demo_platform :: platform where
  "demo_platform =
     \<lparr>sep = CHR ''/'', crop = demo_crop, paste = demo_paste,
      can_save = (\<lambda>path img. True), io_error = (\<lambda>tree operation. False)\<rparr>"

definition flat_image :: "nat \<Rightarrow> nat \<Rightarrow> pixel \<Rightarrow> image" where
  "flat_image w h p = \<lparr>width = w, height = h, pixels = (\<lambda>q. p)\<rparr>"

definition demo_pack :: store where
  "demo_pack =
     [(''a.png'', Image (flat_image 16 16 (1, 2, 3, 255))),
      (''b.png'', Image (flat_image 16 16 (9, 9, 9, 255))),
      (''base.png'', Image (flat_image 16 16 (0, 0, 0, 255))),
      (''pack.mcmeta'', Json (JObj [(''pack'', JObj [(''pack_format'', JNum 9),
          (''description'', JStr ''demo'')])]))]"

definition demo_merge :: config where
  "demo_merge = no_ops\<lparr>merge_operations := [(''base.png'', [(''overlay.png'', (4, 4))])]\<rparr>"

definition demo_split_plan :: "(string \<times> config) list" where
  "demo_split_plan =
     [(''1.21'', no_ops\<lparr>removed_files := [''a.png''],
        split_operations := [(''b.png'', [((0, 0, 8, 8), ''c.png'')])]\<rparr>)]"

definition demo_touched :: store where
  "demo_touched = AList.update ''b.png'' (Image (flat_image 4 4 (7, 7, 7, 7))) demo_pack"

definition demo_tree :: store where
  "demo_tree = [(''a.png'', Blob ''a''), (''b.png'', Blob ''b''), (''c.png'', Blob ''c'')]"

definition cex_pack :: store where
  "cex_pack =
     [(''pack.mcmeta'', Json (JObj [(''pack'', JObj [(''pack_format'', JNum 9),
          (''description'', JStr ''demo'')])])),
      (''other.json'', Json (JObj [(''pack'', JObj [(''pack_format'', JNum 4)])]))]"

definition cex_config_dir :: config_dir where
  "cex_config_dir =
     [(''1.21.json'', Some (no_ops\<lparr>transparency_operations :=
         [(''other.json'', (''pack.mcmeta'', (0, 0, 0, 0)))]\<rparr>))]"

definition demo_split_dir :: config_dir where
  "demo_split_dir =
     [(''1.21.json'', Some (no_ops\<lparr>removed_files := [''a.png''],
        split_operations := [(''b.png'', [((0, 0, 8, 8), ''c.png'')])]\<rparr>))]"

section \<open>Properties of the resolver\<close>

lemma select_next_total:
  "\<forall>v \<in> fst ` set configs. key v \<noteq> None \<Longrightarrow> \<exists>r. select_next key up cur tgt configs nxt = Inr r"
  by (induction configs arbitrary: nxt) (auto split: option.splits)

lemma select_next_none:
  "select_next key up cur tgt configs nxt = Inr None \<Longrightarrow>
   nxt = None \<and> (\<forall>(v, c) \<in> set configs. \<forall>n. key v = Some n \<longrightarrow>
      \<not> (if up then cur < n \<and> n \<le> tgt else n < cur \<and> tgt \<le> n))"
proof (induction configs arbitrary: nxt)
  case Nil
  then show ?case by simp
next
  case (Cons a configs)
  obtain version cfg where a: "a = (version, cfg)" by (cases a)
  from Cons.prems a obtain k where k: "key version = Some k"
    by (cases "key version") auto
  show ?case
  proof (cases "(if up then k > cur \<and> k \<le> tgt else k < cur \<and> k \<ge> tgt) \<and> closer up k nxt")
    case True
    with Cons.prems a k have "select_next key up cur tgt configs (Some (version, k)) = Inr None"
      by (auto split: if_splits)
    from Cons.IH[OF this] show ?thesis by simp
  next
    case False
    with Cons.prems a k have s: "select_next key up cur tgt configs nxt = Inr None"
      by (auto split: if_splits)
    from Cons.IH[OF s] have n: "nxt = None" and r: "\<forall>(v, c) \<in> set configs. \<forall>n. key v = Some n \<longrightarrow>
      \<not> (if up then cur < n \<and> n \<le> tgt else n < cur \<and> tgt \<le> n)" by auto
    from False n have "\<not> (if up then k > cur \<and> k \<le> tgt else k < cur \<and> k \<ge> tgt)" by simp
    with n r a k show ?thesis by auto
  qed
qed

lemma path_loop_total:
  "\<forall>v \<in> fst ` set configs. key v \<noteq> None \<Longrightarrow> \<exists>p. path_loop key configs up tgt cur acc = Inr p"
proof (induction key configs up tgt cur acc rule: path_loop.induct)
  case (1 key configs up target_num cur version_path)
  from select_next_total[OF "1.prems"] obtain r where
    r: "select_next key up cur target_num configs None = Inr r" by blast
  show ?case
  proof (cases "cur = target_num")
    case True
    then show ?thesis by simp
  next
    case False
    show ?thesis
    proof (cases r)
      case None
      with r False show ?thesis by simp
    next
      case (Some a)
      obtain v n where a: "a = (v, n)" by (cases a)
      from "1.IH"[OF False r Some a[symmetric] "1.prems"] r Some a False show ?thesis
        by simp
    qed
  qed
qed

lemma path_loop_up:
  "path_loop key configs True tgt cur acc = Inr p \<Longrightarrow>
   \<exists>new ks. p = acc @ new \<and> map key new = map Some ks \<and> sorted_wrt (<) ks \<and>
     (\<forall>k \<in> set ks. cur < k \<and> k \<le> tgt) \<and> set new \<subseteq> fst ` set configs"
proof (induction key configs "True" tgt cur acc arbitrary: p rule: path_loop.induct)
  case (1 key configs target_num cur version_path)
  show ?case
  proof (cases "cur = target_num")
    case True
    with "1.prems" have "p = version_path" by simp
    then show ?thesis by simp
  next
    case False
    from "1.prems" False obtain r where r: "select_next key True cur target_num configs None = Inr r"
      by (cases "select_next key True cur target_num configs None") auto
    show ?thesis
    proof (cases r)
      case None
      with "1.prems" False r have "p = version_path" by simp
      then show ?thesis by simp
    next
      case (Some a)
      obtain v n where a: "a = (v, n)" by (cases a)
      from r Some a have sel: "select_next key True cur target_num configs None = Inr (Some (v, n))"
        by simp
      from select_next_found[OF sel] have f: "v \<in> fst ` set configs" "key v = Some n" "cur < n" "n \<le> target_num"
        by auto
      from "1.prems" False sel have "path_loop key configs True target_num n (version_path @ [v]) = Inr p"
        by simp
      from "1.hyps"[OF False r Some a[symmetric] this]
      obtain new ks where nk: "p = (version_path @ [v]) @ new" "map key new = map Some ks"
        "sorted_wrt (<) ks" "\<forall>k \<in> set ks. n < k \<and> k \<le> target_num" "set new \<subseteq> fst ` set configs"
        by blast
      have "p = version_path @ (v # new)" using nk(1) by simp
      moreover have "map key (v # new) = map Some (n # ks)" using nk(2) f(2) by simp
      moreover have "sorted_wrt (<) (n # ks)" using nk(3,4) by auto
      moreover have "\<forall>k \<in> set (n # ks). cur < k \<and> k \<le> target_num" using nk(4) f(3,4) by auto
      moreover have "set (v # new) \<subseteq> fst ` set configs" using nk(5) f(1) by auto
      ultimately show ?thesis by blast
    qed
  qed
qed

lemma path_loop_down:
  "path_loop key configs False tgt cur acc = Inr p \<Longrightarrow>
   \<exists>new ks. p = acc @ new \<and> map key new = map Some ks \<and> sorted_wrt (>) ks \<and>
     (\<forall>k \<in> set ks. k < cur \<and> tgt \<le> k) \<and> set new \<subseteq> fst ` set configs"
proof (induction key configs "False" tgt cur acc arbitrary: p rule: path_loop.induct)
  case (1 key configs target_num cur version_path)
  show ?case
  proof (cases "cur = target_num")
    case True
    with "1.prems" have "p = version_path" by simp
    then show ?thesis by simp
  next
    case False
    from "1.prems" False obtain r where r: "select_next key False cur target_num configs None = Inr r"
      by (cases "select_next key False cur target_num configs None") auto
    show ?thesis
    proof (cases r)
      case None
      with "1.prems" False r have "p = version_path" by simp
      then show ?thesis by simp
    next
      case (Some a)
      obtain v n where a: "a = (v, n)" by (cases a)
      from r Some a have sel: "select_next key False cur target_num configs None = Inr (Some (v, n))"
        by simp
      from select_next_found[OF sel] have f: "v \<in> fst ` set configs" "key v = Some n" "n < cur" "target_num \<le> n"
        by auto
      from "1.prems" False sel have "path_loop key configs False target_num n (version_path @ [v]) = Inr p"
        by simp
      from "1.hyps"[OF False r Some a[symmetric] this]
      obtain new ks where nk: "p = (version_path @ [v]) @ new" "map key new = map Some ks"
        "sorted_wrt (>) ks" "\<forall>k \<in> set ks. k < n \<and> target_num \<le> k" "set new \<subseteq> fst ` set configs"
        by blast
      have "p = version_path @ (v # new)" using nk(1) by simp
      moreover have "map key (v # new) = map Some (n # ks)" using nk(2) f(2) by simp
      moreover have "sorted_wrt (>) (n # ks)" using nk(3,4) by auto
      moreover have "\<forall>k \<in> set (n # ks). k < cur \<and> target_num \<le> k" using nk(4) f(3,4) by auto
      moreover have "set (v # new) \<subseteq> fst ` set configs" using nk(5) f(1) by auto
      ultimately show ?thesis by blast
    qed
  qed
qed

lemma collect_operations_total:
  "set p \<subseteq> fst ` set configs \<Longrightarrow> \<exists>ops. collect_operations configs p = Inr ops"
proof (induction p)
  case Nil
  then show ?case by simp
next
  case (Cons v p)
  then obtain c where "map_of configs v = Some c"
    by (cases "map_of configs v") (auto simp: map_of_eq_None_iff)
  with Cons show ?case by auto
qed

lemma collect_operations_fst:
  "collect_operations configs p = Inr ops \<Longrightarrow> map fst ops = p"
  by (induction p arbitrary: ops) (auto split: option.splits sum.splits)

lemma collect_operations_lookup:
  "collect_operations configs p = Inr ops \<Longrightarrow> \<forall>(v, c) \<in> set ops. map_of configs v = Some c"
  by (induction p arbitrary: ops) (auto split: option.splits sum.splits)

lemma select_next_first:
  "select_next key up cur tgt configs nxt = Inr (Some (v, n)) \<Longrightarrow>
   nxt = Some (v, n) \<or>
   (closer up n nxt \<and> key v = Some n \<and> on_the_way up cur tgt n \<and>
    (\<exists>pre c post. configs = pre @ (v, c) # post \<and> (\<forall>q \<in> set pre. key (fst q) \<noteq> Some n)))"
proof (induction configs arbitrary: nxt)
  case Nil
  then show ?case by simp
next
  case (Cons a configs)
  obtain version cfg where a: "a = (version, cfg)" by (cases a)
  from Cons.prems a obtain k where k: "key version = Some k"
    by (cases "key version") auto
  show ?case
  proof (cases "on_the_way up cur tgt k \<and> closer up k nxt")
    case True
    with Cons.prems a k have "select_next key up cur tgt configs (Some (version, k)) = Inr (Some (v, n))"
      by (auto simp: on_the_way_def split: if_splits)
    from Cons.IH[OF this] show ?thesis
    proof
      assume "Some (version, k) = Some (v, n)"
      then have "v = version" "n = k" by simp_all
      with True a k have "closer up n nxt \<and> key v = Some n \<and> on_the_way up cur tgt n \<and>
          a # configs = [] @ (v, cfg) # configs \<and> (\<forall>q \<in> set []. key (fst q) \<noteq> Some n)"
        by simp
      then show ?thesis by blast
    next
      assume r: "closer up n (Some (version, k)) \<and> key v = Some n \<and> on_the_way up cur tgt n \<and>
        (\<exists>pre c post. configs = pre @ (v, c) # post \<and> (\<forall>q \<in> set pre. key (fst q) \<noteq> Some n))"
      then obtain pre c post where p: "configs = pre @ (v, c) # post"
        "\<forall>q \<in> set pre. key (fst q) \<noteq> Some n" by blast
      from r have nk: "if up then n < k else k < n" by simp
      have "closer up n nxt"
      proof (cases nxt)
        case None
        then show ?thesis by simp
      next
        case (Some b)
        obtain v0 n0 where "b = (v0, n0)" by (cases b)
        with Some True nk show ?thesis by (auto split: if_splits)
      qed
      moreover have "a # configs = (a # pre) @ (v, c) # post" using p(1) by simp
      moreover have "\<forall>q \<in> set (a # pre). key (fst q) \<noteq> Some n"
        using p(2) a k nk by (auto split: if_splits)
      ultimately show ?thesis using r by blast
    qed
  next
    case False
    with Cons.prems a k have s: "select_next key up cur tgt configs nxt = Inr (Some (v, n))"
      by (auto simp: on_the_way_def split: if_splits)
    from Cons.IH[OF s] show ?thesis
    proof
      assume "nxt = Some (v, n)"
      then show ?thesis by simp
    next
      assume r: "closer up n nxt \<and> key v = Some n \<and> on_the_way up cur tgt n \<and>
        (\<exists>pre c post. configs = pre @ (v, c) # post \<and> (\<forall>q \<in> set pre. key (fst q) \<noteq> Some n))"
      then obtain pre c post where p: "configs = pre @ (v, c) # post"
        "\<forall>q \<in> set pre. key (fst q) \<noteq> Some n" by blast
      from r False have "k \<noteq> n" by auto
      then have "\<forall>q \<in> set (a # pre). key (fst q) \<noteq> Some n"
        using p(2) a k by auto
      moreover have "a # configs = (a # pre) @ (v, c) # post" using p(1) by simp
      ultimately show ?thesis using r by blast
    qed
  qed
qed

lemma select_next_nearest:
  "select_next key up cur tgt configs nxt = Inr (Some (v, n)) \<Longrightarrow>
   (\<forall>v0 n0. nxt = Some (v0, n0) \<longrightarrow> (if up then n \<le> n0 else n0 \<le> n)) \<and>
   (\<forall>q \<in> set configs. \<forall>m. key (fst q) = Some m \<and> on_the_way up cur tgt m \<longrightarrow>
      (if up then n \<le> m else m \<le> n))"
proof (induction configs arbitrary: nxt)
  case Nil
  then show ?case by simp
next
  case (Cons a configs)
  obtain version cfg where a: "a = (version, cfg)" by (cases a)
  from Cons.prems a obtain k where k: "key version = Some k"
    by (cases "key version") auto
  show ?case
  proof (cases "on_the_way up cur tgt k \<and> closer up k nxt")
    case True
    with Cons.prems a k have "select_next key up cur tgt configs (Some (version, k)) = Inr (Some (v, n))"
      by (auto simp: on_the_way_def split: if_splits)
    from Cons.IH[OF this] have nk: "if up then n \<le> k else k \<le> n"
      and rest: "\<forall>q \<in> set configs. \<forall>m. key (fst q) = Some m \<and> on_the_way up cur tgt m \<longrightarrow>
        (if up then n \<le> m else m \<le> n)"
      by auto
    have "\<forall>v0 n0. nxt = Some (v0, n0) \<longrightarrow> (if up then n \<le> n0 else n0 \<le> n)"
      using True nk by (auto split: if_splits)
    moreover have "\<forall>q \<in> set (a # configs). \<forall>m. key (fst q) = Some m \<and> on_the_way up cur tgt m \<longrightarrow>
        (if up then n \<le> m else m \<le> n)"
      using rest nk a k by auto
    ultimately show ?thesis by blast
  next
    case False
    with Cons.prems a k have s: "select_next key up cur tgt configs nxt = Inr (Some (v, n))"
      by (auto simp: on_the_way_def split: if_splits)
    from Cons.IH[OF s] have n0: "\<forall>v0 n0. nxt = Some (v0, n0) \<longrightarrow> (if up then n \<le> n0 else n0 \<le> n)"
      and rest: "\<forall>q \<in> set configs. \<forall>m. key (fst q) = Some m \<and> on_the_way up cur tgt m \<longrightarrow>
        (if up then n \<le> m else m \<le> n)"
      by auto
    have "on_the_way up cur tgt k \<longrightarrow> (if up then n \<le> k else k \<le> n)"
    proof
      assume w: "on_the_way up cur tgt k"
      with False have nc: "\<not> closer up k nxt" by simp
      then obtain v0 m0 where nx: "nxt = Some (v0, m0)"
        by (cases nxt) auto
      with nc have "if up then m0 \<le> k else k \<le> m0" by (auto split: if_splits)
      with n0 nx show "if up then n \<le> k else k \<le> n" by (auto split: if_splits)
    qed
    then have "\<forall>q \<in> set (a # configs). \<forall>m. key (fst q) = Some m \<and> on_the_way up cur tgt m \<longrightarrow>
        (if up then n \<le> m else m \<le> n)"
      using rest a k by auto
    with n0 show ?thesis by blast
  qed
qed

lemma path_loop_path:
  "path_loop key configs up tgt cur acc = Inr p \<Longrightarrow>
   \<exists>new ks. p = acc @ new \<and> map key new = map Some ks \<and>
     sorted_wrt (\<lambda>x y. if up then x < y else y < x) ks \<and>
     set ks = {n. (\<exists>v \<in> fst ` set configs. key v = Some n) \<and> on_the_way up cur tgt n} \<and>
     (\<forall>v \<in> set new. \<exists>pre c post. configs = pre @ (v, c) # post \<and>
        (\<forall>q \<in> set pre. key (fst q) \<noteq> key v))"
proof (induction key configs up tgt cur acc arbitrary: p rule: path_loop.induct)
  case (1 key configs up target_num cur version_path)
  let ?K = "\<lambda>c. {n. (\<exists>v \<in> fst ` set configs. key v = Some n) \<and> on_the_way up c target_num n}"
  show ?case
  proof (cases "cur = target_num")
    case True
    with "1.prems" have "p = version_path" by simp
    moreover have "?K cur = {}" using True by (auto simp: on_the_way_def)
    ultimately show ?thesis by simp
  next
    case False
    from "1.prems" False obtain r where r: "select_next key up cur target_num configs None = Inr r"
      by (cases "select_next key up cur target_num configs None") auto
    show ?thesis
    proof (cases r)
      case None
      with "1.prems" False r have "p = version_path" by simp
      moreover have "?K cur = {}"
        using select_next_none[of key up cur target_num configs None] r None
        by (fastforce simp: on_the_way_def)
      ultimately show ?thesis by simp
    next
      case (Some a)
      obtain v n where a: "a = (v, n)" by (cases a)
      from r Some a have sel: "select_next key up cur target_num configs None = Inr (Some (v, n))"
        by simp
      from select_next_first[OF sel] obtain pre c post where
        f: "key v = Some n" "on_the_way up cur target_num n" "configs = pre @ (v, c) # post"
          "\<forall>q \<in> set pre. key (fst q) \<noteq> Some n"
        by auto
      from select_next_nearest[OF sel] have
        near: "\<forall>q \<in> set configs. \<forall>m. key (fst q) = Some m \<and> on_the_way up cur target_num m \<longrightarrow>
          (if up then n \<le> m else m \<le> n)"
        by simp
      from "1.prems" False sel have "path_loop key configs up target_num n (version_path @ [v]) = Inr p"
        by simp
      from "1.IH"[OF False r Some a[symmetric] this]
      obtain new ks where nk: "p = (version_path @ [v]) @ new" "map key new = map Some ks"
        "sorted_wrt (\<lambda>x y. if up then x < y else y < x) ks" "set ks = ?K n"
        "\<forall>v \<in> set new. \<exists>pre c post. configs = pre @ (v, c) # post \<and>
          (\<forall>q \<in> set pre. key (fst q) \<noteq> key v)"
        by blast
      have 1: "p = version_path @ (v # new)" using nk(1) by simp
      have 2: "map key (v # new) = map Some (n # ks)" using nk(2) f(1) by simp
      have 3: "sorted_wrt (\<lambda>x y. if up then x < y else y < x) (n # ks)"
        using nk(3,4) by (auto simp: on_the_way_def split: if_splits)
      have vin: "v \<in> fst ` set configs" using f(3) by force
      have 4: "set (n # ks) = ?K cur"
      proof
        show "set (n # ks) \<subseteq> ?K cur"
          using nk(4) f(1,2) vin by (auto simp: on_the_way_def split: if_splits)
      next
        show "?K cur \<subseteq> set (n # ks)"
        proof
          fix m
          assume "m \<in> ?K cur"
          then obtain w where w: "w \<in> fst ` set configs" "key w = Some m"
            "on_the_way up cur target_num m" by blast
          then obtain q where "q \<in> set configs" "fst q = w" by auto
          with near w have le: "if up then n \<le> m else m \<le> n" by blast
          show "m \<in> set (n # ks)"
          proof (cases "m = n")
            case True
            then show ?thesis by simp
          next
            case False
            with le w have "m \<in> ?K n"
              by (auto simp: on_the_way_def split: if_splits)
            then have "m \<in> set ks" by (simp only: nk(4))
            then show ?thesis by simp
          qed
        qed
      qed
      have 5: "\<forall>v \<in> set (v # new). \<exists>pre c post. configs = pre @ (v, c) # post \<and>
          (\<forall>q \<in> set pre. key (fst q) \<noteq> key v)"
        using nk(5) f(1,3,4) by auto
      from 1 2 3 4 5 show ?thesis by blast
    qed
  qed
qed

lemma collect_operations_first:
  assumes "collect_operations configs p = Inr ops"
    and "\<forall>v \<in> set p. \<exists>pre c post. configs = pre @ (v, c) # post \<and>
          (\<forall>q \<in> set pre. key (fst q) \<noteq> key v)"
  shows "\<forall>operation \<in> set ops. \<exists>pre post. configs = pre @ operation # post \<and>
          (\<forall>q \<in> set pre. key (fst q) \<noteq> key (fst operation))"
proof
  fix operation
  assume o: "operation \<in> set ops"
  obtain v c' where vc: "operation = (v, c')" by (cases operation)
  from collect_operations_lookup[OF assms(1)] o vc have l: "map_of configs v = Some c'" by auto
  from collect_operations_fst[OF assms(1)] o vc have "v \<in> set p" by force
  with assms(2) obtain pre c post where p: "configs = pre @ (v, c) # post"
    "\<forall>q \<in> set pre. key (fst q) \<noteq> key v" by blast
  from p(2) have "v \<notin> fst ` set pre" by auto
  then have "map_of pre v = None" by (simp add: map_of_eq_None_iff)
  with p(1) l have "c' = c" by (simp add: map_add_def)
  with p vc show "\<exists>pre post. configs = pre @ operation # post \<and>
          (\<forall>q \<in> set pre. key (fst q) \<noteq> key (fst operation))"
    by auto
qed

section \<open>Properties of the transformation engine\<close>

lemma observes_same_update:
  "observes_same A S t1 t2 \<Longrightarrow> observes_same A S (AList.update p c t1) (AList.update p c t2)"
  by (auto simp: observes_same_def exists_in_def update_conv')

lemma fold_related:
  assumes "\<And>x t1 t2. x \<in> set xs \<Longrightarrow> R t1 t2 \<Longrightarrow> R (f x t1) (f x t2)" and "R t1 t2"
  shows "R (fold f xs t1) (fold f xs t2)"
  using assms by (induction xs arbitrary: t1 t2) auto

lemma split_step_same:
  "observes_same A S t1 t2 \<Longrightarrow>
   observes_same A S (split_step pf src source_file split t1) (split_step pf src source_file split t2)"
  by (auto simp: split_step_def split_image_def observes_same_update
      split: option.splits content.splits if_splits)

lemma split_entry_same:
  "observes_same A S t1 t2 \<Longrightarrow>
   observes_same A S (split_entry pf src entry t1) (split_entry pf src entry t2)"
  unfolding split_entry_def
  by (auto intro!: fold_related[where R = "observes_same A S"] split_step_same)

lemma merge_step_same:
  assumes "target_file \<in> A" and "observes_same A S t1 t2"
  shows "observes_same A S (merge_step pf src target_file merge t1) (merge_step pf src target_file merge t2)"
proof -
  from assms have "map_of t1 target_file = map_of t2 target_file"
    by (simp add: observes_same_def)
  with assms(2) show ?thesis
    by (auto simp: merge_step_def merge_images_def observes_same_update
        split: option.splits content.splits)
qed

lemma merge_entry_same:
  "fst entry \<in> A \<Longrightarrow> observes_same A S t1 t2 \<Longrightarrow>
   observes_same A S (merge_entry pf src entry t1) (merge_entry pf src entry t2)"
  unfolding merge_entry_def
  by (auto intro!: fold_related[where R = "observes_same A S"] merge_step_same)

lemma transparency_entry_same:
  "observes_same A S t1 t2 \<Longrightarrow>
   observes_same A S (transparency_entry src entry t1) (transparency_entry src entry t2)"
  by (auto simp: transparency_entry_def copy2_def apply_transparency_def update_conv'
      observes_same_update exists_in_def split: option.splits content.splits)

lemma mcmeta_step_same:
  assumes "entry \<in> set files" and "sidecar_originals_of pf (Some files) \<subseteq> S"
    and "observes_same A S t1 t2"
  shows "observes_same A S (mcmeta_step pf cfg entry t1) (mcmeta_step pf cfg entry t2)"
proof -
  obtain rel_path fname data where e: "entry = (rel_path, fname, data)" by (cases entry)
  show ?thesis
  proof (cases "endswith fname ''.mcmeta''")
    case True
    with assms(1,2) e have "tree_path pf rel_path (take (length fname - 7) fname) \<in> S"
      by (force simp: sidecar_originals_of_def)
    with assms(3) have "exists_in t1 (tree_path pf rel_path (take (length fname - 7) fname))
        = exists_in t2 (tree_path pf rel_path (take (length fname - 7) fname))"
      by (simp add: observes_same_def)
    with assms(3) e True show ?thesis
      by (simp add: mcmeta_step_def Let_def observes_same_update)
  next
    case False
    with assms(3) e show ?thesis by (simp add: mcmeta_step_def)
  qed
qed

lemma process_mcmeta_same:
  assumes "sidecar_originals_of pf dir \<subseteq> S" and "observes_same A S t1 t2"
  shows "observes_same A S (process_mcmeta pf cfg dir t1) (process_mcmeta pf cfg dir t2)"
proof (cases dir)
  case None
  with assms(2) show ?thesis by (simp add: process_mcmeta_def)
next
  case (Some files)
  with assms show ?thesis
    unfolding process_mcmeta_def
    by (auto intro!: fold_related[where R = "observes_same A S"] mcmeta_step_same)
qed

lemma process_operation_same:
  assumes "fst ` set (merge_operations (snd operation)) \<subseteq> A"
    and "sidecar_originals_of pf (mcmeta (fst operation)) \<subseteq> S"
    and "observes_same A S t1 t2"
  shows "observes_same A S (fst (process_operation pf src mcmeta operation (t1, ex)))
           (fst (process_operation pf src mcmeta operation (t2, ex)))
         \<and> snd (process_operation pf src mcmeta operation (t1, ex))
           = snd (process_operation pf src mcmeta operation (t2, ex))"
proof -
  let ?cfg = "snd operation"
  have 1: "observes_same A S (fold (split_entry pf src) (split_operations ?cfg) t1)
             (fold (split_entry pf src) (split_operations ?cfg) t2)"
    using assms(3) by (auto intro!: fold_related[where R = "observes_same A S"] split_entry_same)
  have 2: "observes_same A S
      (fold (merge_entry pf src) (merge_operations ?cfg) (fold (split_entry pf src) (split_operations ?cfg) t1))
      (fold (merge_entry pf src) (merge_operations ?cfg) (fold (split_entry pf src) (split_operations ?cfg) t2))"
    using 1 assms(1)
    by (auto intro!: fold_related[where R = "observes_same A S"] merge_entry_same)
  have 3: "observes_same A S
      (fold (transparency_entry src) (transparency_operations ?cfg)
        (fold (merge_entry pf src) (merge_operations ?cfg) (fold (split_entry pf src) (split_operations ?cfg) t1)))
      (fold (transparency_entry src) (transparency_operations ?cfg)
        (fold (merge_entry pf src) (merge_operations ?cfg) (fold (split_entry pf src) (split_operations ?cfg) t2)))"
    using 2 by (auto intro!: fold_related[where R = "observes_same A S"] transparency_entry_same)
  show ?thesis
    using process_mcmeta_same[OF assms(2) 3] by (simp add: process_operation_def Let_def)
qed

lemma plan_same:
  assumes "merge_targets operations \<subseteq> A" and "sidecar_originals pf mcmeta operations \<subseteq> S"
    and "observes_same A S t1 t2"
  shows "observes_same A S (fst (fold (process_operation pf src mcmeta) operations (t1, ex)))
           (fst (fold (process_operation pf src mcmeta) operations (t2, ex)))
         \<and> snd (fold (process_operation pf src mcmeta) operations (t1, ex))
           = snd (fold (process_operation pf src mcmeta) operations (t2, ex))"
  using assms
proof (induction operations arbitrary: t1 t2 ex)
  case Nil
  then show ?case by simp
next
  case (Cons operation operations)
  have a: "fst ` set (merge_operations (snd operation)) \<subseteq> A"
    using Cons.prems(1) by (auto simp: merge_targets_def)
  have b: "sidecar_originals_of pf (mcmeta (fst operation)) \<subseteq> S"
    using Cons.prems(2) by (auto simp: sidecar_originals_def)
  have c: "merge_targets operations \<subseteq> A"
    using Cons.prems(1) by (auto simp: merge_targets_def)
  have d: "sidecar_originals pf mcmeta operations \<subseteq> S"
    using Cons.prems(2) by (auto simp: sidecar_originals_def)
  from process_operation_same[where src = src and ex = ex and mcmeta = mcmeta and operation = operation
      and pf = pf, OF a b Cons.prems(3)]
  obtain s1 s2 ex' where
    s: "process_operation pf src mcmeta operation (t1, ex) = (s1, ex')"
       "process_operation pf src mcmeta operation (t2, ex) = (s2, ex')"
       "observes_same A S s1 s2"
    by (metis prod.collapse)
  from Cons.IH[OF c d s(3), of ex'] s(1,2) show ?case by simp
qed

lemma exists_in_iff: "exists_in st p \<longleftrightarrow> p \<in> fst ` set st"
  by (simp add: exists_in_def map_of_eq_None_iff)

lemma merge_step_skip: "\<not> exists_in src (fst merge) \<Longrightarrow> merge_step pf src target_file merge t = t"
  by (simp add: merge_step_def)

lemma fold_grows:
  assumes "\<And>x t. x \<in> set xs \<Longrightarrow> fst ` set t \<subseteq> fst ` set (f x t)"
  shows "fst ` set t \<subseteq> fst ` set (fold f xs t)"
  using assms
proof (induction xs arbitrary: t)
  case Nil
  then show ?case by simp
next
  case (Cons x xs)
  have "fst ` set t \<subseteq> fst ` set (f x t)" using Cons.prems by simp
  also have "\<dots> \<subseteq> fst ` set (fold f xs (f x t))" using Cons.IH Cons.prems by simp
  finally show ?case by simp
qed

lemma split_step_grows: "fst ` set t \<subseteq> fst ` set (split_step pf src source_file split t)"
  by (auto simp: split_step_def split_image_def dom_update
      split: option.splits content.splits if_splits)

lemma split_entry_grows: "fst ` set t \<subseteq> fst ` set (split_entry pf src entry t)"
  unfolding split_entry_def by (auto intro!: fold_grows[THEN subsetD] split_step_grows)

lemma merge_step_grows: "fst ` set t \<subseteq> fst ` set (merge_step pf src target_file merge t)"
  by (auto simp: merge_step_def merge_images_def dom_update split: option.splits content.splits)

lemma merge_entry_grows: "fst ` set t \<subseteq> fst ` set (merge_entry pf src entry t)"
  unfolding merge_entry_def by (intro fold_grows merge_step_grows)

lemma transparency_entry_grows: "fst ` set t \<subseteq> fst ` set (transparency_entry src entry t)"
  by (auto simp: transparency_entry_def copy2_def apply_transparency_def dom_update
      split: option.splits content.splits)

lemma mcmeta_step_grows: "fst ` set t \<subseteq> fst ` set (mcmeta_step pf cfg entry t)"
proof -
  obtain rel_path fname data where "entry = (rel_path, fname, data)" by (cases entry)
  then show ?thesis
    by (auto simp: mcmeta_step_def Let_def dom_update)
qed

lemma process_mcmeta_split_operations:
  "split_operations cfg = split_operations cfg' \<Longrightarrow>
   process_mcmeta pf cfg dir t = process_mcmeta pf cfg' dir t"
proof -
  assume "split_operations cfg = split_operations cfg'"
  then have "mcmeta_step pf cfg = mcmeta_step pf cfg'"
    by (simp add: mcmeta_step_def is_split_target_def fun_eq_iff)
  then show ?thesis by (simp add: process_mcmeta_def split: option.splits)
qed

lemma process_mcmeta_grows: "fst ` set t \<subseteq> fst ` set (process_mcmeta pf cfg dir t)"
  unfolding process_mcmeta_def
  by (cases dir) (auto intro!: fold_grows[THEN subsetD] mcmeta_step_grows)

lemma process_operation_grows:
  "fst ` set t \<subseteq> fst ` set (fst (process_operation pf src mcmeta operation (t, ex)))"
proof -
  let ?cfg = "snd operation"
  let ?t1 = "fold (split_entry pf src) (split_operations ?cfg) t"
  let ?t2 = "fold (merge_entry pf src) (merge_operations ?cfg) ?t1"
  let ?t3 = "fold (transparency_entry src) (transparency_operations ?cfg) ?t2"
  have "fst ` set t \<subseteq> fst ` set ?t1" by (intro fold_grows split_entry_grows)
  also have "\<dots> \<subseteq> fst ` set ?t2" by (intro fold_grows merge_entry_grows)
  also have "\<dots> \<subseteq> fst ` set ?t3" by (intro fold_grows transparency_entry_grows)
  also have "\<dots> \<subseteq> fst ` set (process_mcmeta pf ?cfg (mcmeta (fst operation)) ?t3)"
    by (rule process_mcmeta_grows)
  finally show ?thesis by (simp add: process_operation_def Let_def)
qed

lemma fold_frame:
  assumes "\<And>x t. x \<in> set xs \<Longrightarrow> map_of (f x t) p = map_of t p"
  shows "map_of (fold f xs t) p = map_of t p"
  using assms by (induction xs arbitrary: t) auto

lemma fold_distinct:
  assumes "\<And>x t. x \<in> set xs \<Longrightarrow> distinct (map fst t) \<Longrightarrow> distinct (map fst (f x t))"
    and "distinct (map fst t)"
  shows "distinct (map fst (fold f xs t))"
  using assms by (induction xs arbitrary: t) auto

lemma split_step_frame:
  "p \<noteq> snd split \<Longrightarrow> map_of (split_step pf src source_file split t) p = map_of t p"
  by (auto simp: split_step_def split_image_def update_conv'
      split: option.splits content.splits if_splits)

lemma split_entry_frame:
  "p \<notin> snd ` set (snd entry) \<Longrightarrow> map_of (split_entry pf src entry t) p = map_of t p"
  unfolding split_entry_def by (auto intro!: fold_frame split_step_frame)

lemma merge_step_frame:
  "p \<noteq> target_file \<Longrightarrow> map_of (merge_step pf src target_file merge t) p = map_of t p"
  by (auto simp: merge_step_def merge_images_def update_conv' split: option.splits content.splits)

lemma merge_entry_frame:
  "p \<noteq> fst entry \<Longrightarrow> map_of (merge_entry pf src entry t) p = map_of t p"
  unfolding merge_entry_def by (auto intro!: fold_frame merge_step_frame)

lemma transparency_entry_frame:
  "p \<noteq> fst (snd entry) \<Longrightarrow> map_of (transparency_entry src entry t) p = map_of t p"
  by (auto simp: transparency_entry_def copy2_def apply_transparency_def update_conv'
      split: option.splits content.splits)

lemma mcmeta_step_frame:
  "p \<noteq> tree_path pf (fst entry) (fst (snd entry)) \<Longrightarrow> map_of (mcmeta_step pf cfg entry t) p = map_of t p"
proof -
  assume a: "p \<noteq> tree_path pf (fst entry) (fst (snd entry))"
  obtain rel_path fname data where "entry = (rel_path, fname, data)" by (cases entry)
  with a show ?thesis
    by (auto simp: mcmeta_step_def Let_def update_conv')
qed

lemma process_operation_frame:
  assumes "p \<notin> write_targets_of pf (mcmeta (fst operation)) (snd operation)"
  shows "map_of (fst (process_operation pf src mcmeta operation (t, ex))) p = map_of t p"
proof -
  let ?cfg = "snd operation"
  let ?t1 = "fold (split_entry pf src) (split_operations ?cfg) t"
  let ?t2 = "fold (merge_entry pf src) (merge_operations ?cfg) ?t1"
  let ?t3 = "fold (transparency_entry src) (transparency_operations ?cfg) ?t2"
  have 1: "map_of ?t1 p = map_of t p"
    using assms by (intro fold_frame split_entry_frame) (auto simp: write_targets_of_def)
  have 2: "map_of ?t2 p = map_of ?t1 p"
    using assms by (intro fold_frame merge_entry_frame) (auto simp: write_targets_of_def)
  have 3: "map_of ?t3 p = map_of ?t2 p"
    using assms by (intro fold_frame transparency_entry_frame) (auto simp: write_targets_of_def)
  have 4: "map_of (process_mcmeta pf ?cfg (mcmeta (fst operation)) ?t3) p = map_of ?t3 p"
  proof (cases "mcmeta (fst operation)")
    case None
    then show ?thesis by (simp add: process_mcmeta_def)
  next
    case (Some files)
    with assms have "\<And>entry. entry \<in> set files \<Longrightarrow> p \<noteq> tree_path pf (fst entry) (fst (snd entry))"
      by (auto simp: write_targets_of_def)
    with Some show ?thesis
      by (simp add: process_mcmeta_def) (intro fold_frame mcmeta_step_frame, simp)
  qed
  from 1 2 3 4 show ?thesis by (simp add: process_operation_def Let_def)
qed

lemma plan_frame:
  "p \<notin> write_targets pf mcmeta operations \<Longrightarrow>
   map_of (fst (fold (process_operation pf src mcmeta) operations (t, ex))) p = map_of t p"
proof (induction operations arbitrary: t ex)
  case Nil
  then show ?case by simp
next
  case (Cons operation operations)
  obtain t' ex' where s: "process_operation pf src mcmeta operation (t, ex) = (t', ex')"
    by (cases "process_operation pf src mcmeta operation (t, ex)")
  have a: "p \<notin> write_targets_of pf (mcmeta (fst operation)) (snd operation)"
    and b: "p \<notin> write_targets pf mcmeta operations"
    using Cons.prems by (auto simp: write_targets_def)
  from process_operation_frame[where mcmeta = mcmeta and operation = operation and pf = pf
      and src = src and t = t and ex = ex and p = p, OF a] s have "map_of t' p = map_of t p" by simp
  with Cons.IH[OF b, of t' ex'] s show ?case by simp
qed

lemma plan_exclusions:
  "snd (fold (process_operation pf src mcmeta) operations (t, ex)) = ex \<union> removed_by operations"
proof (induction operations arbitrary: t ex)
  case Nil
  then show ?case by (simp add: removed_by_def)
next
  case (Cons operation operations)
  obtain t' where s: "process_operation pf src mcmeta operation (t, ex)
      = (t', ex \<union> set (removed_files (snd operation)))"
    by (simp add: process_operation_def Let_def)
  with Cons.IH[of t' "ex \<union> set (removed_files (snd operation))"] show ?case
    by (auto simp: removed_by_def)
qed

lemma split_step_distinct:
  "distinct (map fst t) \<Longrightarrow> distinct (map fst (split_step pf src source_file split t))"
  by (auto simp: split_step_def split_image_def distinct_update
      split: option.splits content.splits if_splits)

lemma split_entry_distinct:
  "distinct (map fst t) \<Longrightarrow> distinct (map fst (split_entry pf src entry t))"
  unfolding split_entry_def by (auto intro!: fold_distinct split_step_distinct)

lemma merge_step_distinct:
  "distinct (map fst t) \<Longrightarrow> distinct (map fst (merge_step pf src target_file merge t))"
  by (auto simp: merge_step_def merge_images_def distinct_update split: option.splits content.splits)

lemma merge_entry_distinct:
  "distinct (map fst t) \<Longrightarrow> distinct (map fst (merge_entry pf src entry t))"
  unfolding merge_entry_def by (auto intro!: fold_distinct merge_step_distinct)

lemma transparency_entry_distinct:
  "distinct (map fst t) \<Longrightarrow> distinct (map fst (transparency_entry src entry t))"
  by (auto simp: transparency_entry_def copy2_def apply_transparency_def distinct_update
      split: option.splits content.splits)

lemma mcmeta_step_distinct:
  "distinct (map fst t) \<Longrightarrow> distinct (map fst (mcmeta_step pf cfg entry t))"
proof -
  assume a: "distinct (map fst t)"
  obtain rel_path fname data where "entry = (rel_path, fname, data)" by (cases entry)
  with a show ?thesis
    by (auto simp: mcmeta_step_def Let_def distinct_update)
qed

lemma process_operation_distinct:
  assumes "distinct (map fst t)"
  shows "distinct (map fst (fst (process_operation pf src mcmeta operation (t, ex))))"
proof -
  let ?cfg = "snd operation"
  let ?t1 = "fold (split_entry pf src) (split_operations ?cfg) t"
  let ?t2 = "fold (merge_entry pf src) (merge_operations ?cfg) ?t1"
  let ?t3 = "fold (transparency_entry src) (transparency_operations ?cfg) ?t2"
  have 1: "distinct (map fst ?t1)"
    using assms by (auto intro!: fold_distinct split_entry_distinct)
  have 2: "distinct (map fst ?t2)"
    using 1 by (auto intro!: fold_distinct merge_entry_distinct)
  have 3: "distinct (map fst ?t3)"
    using 2 by (auto intro!: fold_distinct transparency_entry_distinct)
  have "distinct (map fst (process_mcmeta pf ?cfg (mcmeta (fst operation)) ?t3))"
    using 3 unfolding process_mcmeta_def
    by (cases "mcmeta (fst operation)") (auto intro!: fold_distinct mcmeta_step_distinct)
  then show ?thesis by (simp add: process_operation_def Let_def)
qed

lemma plan_distinct:
  "distinct (map fst t) \<Longrightarrow>
   distinct (map fst (fst (fold (process_operation pf src mcmeta) operations (t, ex))))"
proof (induction operations arbitrary: t ex)
  case Nil
  then show ?case by simp
next
  case (Cons operation operations)
  obtain t' ex' where s: "process_operation pf src mcmeta operation (t, ex) = (t', ex')"
    by (cases "process_operation pf src mcmeta operation (t, ex)")
  from process_operation_distinct[OF Cons.prems, of pf src mcmeta operation ex] s
  have "distinct (map fst t')" by simp
  from Cons.IH[OF this, of ex'] s show ?case by simp
qed

lemma merge_entry_skip:
  assumes "\<forall>m \<in> set merges. \<not> exists_in src (fst m)"
  shows "merge_entry pf src (target_file, merges) t = t"
  using assms unfolding merge_entry_def
  by (induction merges arbitrary: t) (simp_all add: merge_step_skip)

section \<open>Properties of the transparency mask\<close>

lemma fold_mask_row:
  "fold (mask_at keep_area y) [0..<w] px =
     (\<lambda>q. if snd q = y \<and> fst q < w \<and> \<not> in_keep_area keep_area (fst q) y
          then clear_alpha (px q) else px q)"
proof (induction w)
  case 0
  then show ?case by simp
next
  case (Suc w)
  have "fold (mask_at keep_area y) [0..<Suc w] px =
        mask_at keep_area y w (fold (mask_at keep_area y) [0..<w] px)"
    by simp
  also have "\<dots> = mask_at keep_area y w
     (\<lambda>q. if snd q = y \<and> fst q < w \<and> \<not> in_keep_area keep_area (fst q) y
          then clear_alpha (px q) else px q)"
    by (simp only: Suc)
  also have "\<dots> = (\<lambda>q. if snd q = y \<and> fst q < Suc w \<and> \<not> in_keep_area keep_area (fst q) y
          then clear_alpha (px q) else px q)"
    unfolding mask_at_def by (auto simp: fun_eq_iff less_Suc_eq)
  finally show ?case .
qed

lemma fold_mask_rows:
  "fold (\<lambda>y. fold (mask_at keep_area y) [0..<w]) [0..<h] px =
     (\<lambda>q. if snd q < h \<and> fst q < w \<and> \<not> in_keep_area keep_area (fst q) (snd q)
          then clear_alpha (px q) else px q)"
proof (induction h)
  case 0
  then show ?case by simp
next
  case (Suc h)
  have "fold (\<lambda>y. fold (mask_at keep_area y) [0..<w]) [0..<Suc h] px =
        fold (mask_at keep_area h) [0..<w] (fold (\<lambda>y. fold (mask_at keep_area y) [0..<w]) [0..<h] px)"
    by simp
  also have "\<dots> = fold (mask_at keep_area h) [0..<w]
     (\<lambda>q. if snd q < h \<and> fst q < w \<and> \<not> in_keep_area keep_area (fst q) (snd q)
          then clear_alpha (px q) else px q)"
    by (simp only: Suc)
  also have "\<dots> = (\<lambda>q. if snd q < Suc h \<and> fst q < w \<and> \<not> in_keep_area keep_area (fst q) (snd q)
          then clear_alpha (px q) else px q)"
    unfolding fold_mask_row by (auto simp: fun_eq_iff less_Suc_eq)
  finally show ?case .
qed

lemma pixels_mask_image:
  "pixels (mask_image keep_area img) (x, y) =
     (if x < width img \<and> y < height img \<and> \<not> in_keep_area keep_area x y
      then clear_alpha (pixels img (x, y)) else pixels img (x, y))"
  by (simp add: mask_image_def fold_mask_rows)

lemma clear_alpha_idem: "clear_alpha (clear_alpha p) = clear_alpha p"
  by (simp add: clear_alpha_def split: prod.splits)

lemma mask_image_size:
  "width (mask_image keep_area img) = width img" "height (mask_image keep_area img) = height img"
  by (simp_all add: mask_image_def)

lemma mask_image_idem: "mask_image keep_area (mask_image keep_area img) = mask_image keep_area img"
proof -
  have "pixels (mask_image keep_area (mask_image keep_area img)) = pixels (mask_image keep_area img)"
    by (rule ext) (auto simp: pixels_mask_image mask_image_size clear_alpha_idem split: prod.splits)
  then show ?thesis
    by (simp add: mask_image_def)
qed

lemma apply_transparency_idem:
  "snd (apply_transparency image_path keep_area (snd (apply_transparency image_path keep_area tree)))
     = snd (apply_transparency image_path keep_area tree)"
  by (auto simp: apply_transparency_def update_conv' mask_image_idem split: option.splits content.splits)

section \<open>Properties of packaging\<close>

lemma write_zip_eq:
  "write_zip exclude_files tree zipf =
     zipf @ map (\<lambda>(file_path, data). (py_replace backslash ''/'' file_path, data))
              (filter (\<lambda>(file_path, data). py_replace backslash ''/'' file_path \<notin> exclude_files) tree)"
  by (induction exclude_files tree zipf rule: write_zip.induct) (auto simp: Let_def)

lemma set_write_zip:
  "set (write_zip exclude_files tree []) =
     {(py_replace backslash ''/'' file_path, data) | file_path data.
        (file_path, data) \<in> set tree \<and> py_replace backslash ''/'' file_path \<notin> exclude_files}"
  by (auto simp: write_zip_eq)

lemma py_replace_char:
  "py_replace [a] [b] s = map (\<lambda>c. if c = a then b else c) s"
  by (induction s) auto

lemma normalized_name_plain:
  assumes "py_replace backslash ''/'' file_path = name" and "CHR ''/'' \<notin> set name"
  shows "file_path = name"
proof -
  from assms have m: "map (\<lambda>c. if c = CHR 0x5C then CHR ''/'' else c) file_path = name"
    by (simp add: backslash_def py_replace_char)
  with assms(2) have "CHR 0x5C \<notin> set file_path" by auto
  then have "map (\<lambda>c. if c = CHR 0x5C then CHR ''/'' else c) file_path = file_path"
    by (induction file_path) auto
  with m show ?thesis by simp
qed

lemma update_pack_mcmeta_sets_format:
  assumes "map_of tree ''pack.mcmeta'' = Some (Json (JObj members))"
    and "map_of members ''pack'' = Some (JObj pack)"
  shows "update_pack_mcmeta target tree
           = Inr (AList.update ''pack.mcmeta''
               (Json (JObj (AList.update ''pack''
                  (JObj (AList.update ''pack_format'' (JNum (format_code target)) pack)) members))) tree)"
  using assms by (simp add: update_pack_mcmeta_def set_pack_format_def)

lemma remove_temp_dir_None: "remove_temp_dir temp_dir = None"
  by (simp add: remove_temp_dir_def split: option.splits)

lemma run_operations_success:
  "run_operations pf src mcmeta operations st = (True, ex, tree) \<Longrightarrow>
   fold (process_operation pf src mcmeta) operations st = (tree, ex)"
  by (induction operations arbitrary: st) (auto split: if_splits)

lemma write_targets_names: "write_targets pf mcmeta operations \<subseteq> write_names pf mcmeta operations"
  by (auto simp: write_targets_def write_names_def write_names_of_def)

lemma names_pack_mcmeta_plain: "names_pack_mcmeta ''pack.mcmeta''"
  by (simp add: names_pack_mcmeta_def basename_def lower_def)

lemma update_pack_mcmeta_Inr:
  assumes "map_of src ''pack.mcmeta'' = Some data" and "update_pack_mcmeta target src = Inr tree"
  shows "\<exists>members pack. data = Json (JObj members) \<and> map_of members ''pack'' = Some (JObj pack)"
  using assms
  by (auto simp: update_pack_mcmeta_def set_pack_format_def
      split: content.splits json.splits option.splits sum.splits)

section \<open>The model on the sample data\<close>

lemma load_demo_config_dir: "load_version_configs demo_config_dir = Inr demo_configs"
  by (simp add: load_version_configs_def demo_config_dir_def demo_configs_def endswith_def)

lemma demo_keys:
  "version_num ''1.20.2'' = Some (101 / 5)"
  "version_num ''1.19.4'' = Some (97 / 5)"
  "version_num ''1.21'' = Some 21"
  "version_num ''1.18.2'' = Some (91 / 5)"
  "version_num ''1.16.5'' = Some (33 / 2)"
  "version_num ''1.20.4'' = Some (102 / 5)"
  by (simp_all add: version_num_def py_float_def digit_val_def)

lemma demo_keys_parse: "\<forall>v \<in> fst ` set demo_configs. version_num v \<noteq> None"
  by (simp add: demo_configs_def demo_keys del: not_None_eq)

lemma demo_plan:
  "get_version_operations demo_config_dir ''1.19.4'' ''1.21''
     = Inr [(''1.20.2'', no_ops\<lparr>versions := Some [''1.20.2'', ''1.20.4'']\<rparr>),
            (''1.21'', no_ops\<lparr>removed_files := [''a.png'']\<rparr>)]"
  by (simp add: get_version_operations_def load_demo_config_dir resolve_def demo_keys demo_configs_def)

lemma demo_plan_observes:
  "merge_targets demo_split_plan = {}" "sidecar_originals demo_platform (\<lambda>v. None) demo_split_plan = {}"
  by (simp_all add: merge_targets_def sidecar_originals_def sidecar_originals_of_def
      demo_split_plan_def no_ops_def)

lemma cex_plan:
  "get_version_operations cex_config_dir ''1.20.4'' ''1.21''
     = Inr [(''1.21'', no_ops\<lparr>transparency_operations :=
         [(''other.json'', (''pack.mcmeta'', (0, 0, 0, 0)))]\<rparr>)]"
  by (simp add: get_version_operations_def load_version_configs_def cex_config_dir_def
      endswith_def resolve_def demo_keys)

lemma demo_split_dir_plan:
  "get_version_operations demo_split_dir ''1.20.4'' ''1.21'' = Inr demo_split_plan"
  by (simp add: get_version_operations_def load_version_configs_def demo_split_dir_def
      demo_split_plan_def endswith_def resolve_def demo_keys)

lemma demo_split_plan_names:
  "write_names demo_platform (\<lambda>v. None) demo_split_plan = {''c.png''}"
  "removed_by demo_split_plan = {''a.png''}"
  by (auto simp: write_names_def write_names_of_def write_targets_of_def removed_by_def
      demo_split_plan_def no_ops_def)

lemma demo_split_run:
  "\<exists>archive. on_confirm demo_platform demo_split_dir (\<lambda>v. None) (Some demo_pack) None
       ''1.20.4'' ''1.21'' ''out.zip'' = (None, Saved archive) \<and>
     map fst archive = [''b.png'', ''base.png'', ''pack.mcmeta'', ''c.png'']"
  by (simp add: on_confirm_def convert_def remove_temp_dir_def update_pack_mcmeta_def
      set_pack_format_def format_code_def version_format_def demo_pack_def
      process_version_conversion_def demo_split_dir_plan demo_split_plan_def process_operation_def no_ops_def
      process_mcmeta_def backslash_def split_entry_def split_step_def split_image_def exists_in_def
      demo_platform_def demo_crop_def)

text \<open>
  The exit paths of a run: the archive saved, the save dialog cancelled, a step of the
  conversion that raises, the pack directory missing, a metadata file that is not JSON, a
  configuration file that is not JSON, a target version without a key.
\<close>

lemma on_confirm_exit_paths:
  "on_confirm demo_platform demo_config_dir (\<lambda>v. None) (Some demo_pack) (Some demo_tree)
       ''1.19.4'' ''1.21'' ''out.zip''
     = (None, Saved
         [(''b.png'', Image (flat_image 16 16 (9, 9, 9, 255))),
          (''base.png'', Image (flat_image 16 16 (0, 0, 0, 255))),
          (''pack.mcmeta'', Json (JObj [(''pack'', JObj [(''pack_format'', JNum 30),
              (''description'', JStr ''demo'')])]))])"
  "on_confirm demo_platform demo_config_dir (\<lambda>v. None) (Some demo_pack) None
       ''1.19.4'' ''1.21'' '''' = (None, NotSaved)"
  "on_confirm (demo_platform\<lparr>io_error := (\<lambda>tree operation. fst operation = ''1.21'')\<rparr>)
       demo_config_dir (\<lambda>v. None) (Some demo_pack) None
       ''1.19.4'' ''1.21'' ''out.zip'' = (None, NotSaved)"
  "on_confirm demo_platform demo_config_dir (\<lambda>v. None) None (Some demo_tree)
       ''1.19.4'' ''1.21'' ''out.zip'' = (None, Failed FileNotFoundError)"
  "on_confirm demo_platform demo_config_dir (\<lambda>v. None) (Some [(''pack.mcmeta'', Blob ''{'')]) None
       ''1.19.4'' ''1.21'' ''out.zip'' = (None, Failed JSONDecodeError)"
  "on_confirm demo_platform ((''1.18.json'', None) # demo_config_dir) (\<lambda>v. None) (Some demo_pack) None
       ''1.19.4'' ''1.21'' ''out.zip'' = (None, Failed JSONDecodeError)"
  "on_confirm demo_platform demo_config_dir (\<lambda>v. None) (Some demo_pack) None
       ''1.19.4'' ''latest'' ''out.zip'' = (None, Failed ValueError)"
  by (simp_all add: on_confirm_def convert_def remove_temp_dir_def update_pack_mcmeta_def
      set_pack_format_def format_code_def version_format_def demo_pack_def
      process_version_conversion_def demo_plan process_operation_def no_ops_def
      process_mcmeta_def backslash_def get_version_operations_def load_version_configs_def
      demo_config_dir_def endswith_def resolve_def demo_keys version_num_def py_float_def digit_val_def
      demo_platform_def)

section \<open>The claims\<close>

text \<open>
  C1. For versions \<open>a\<close> and \<open>b\<close> with the key of \<open>a\<close> below the key of \<open>b\<close>, over a
  configuration directory that loads and whose version names all have a key,
  \<open>get_version_operations\<close> returns a plan; the keys of the plan's configurations
  increase strictly along the plan (so they are non-decreasing), every one is greater
  than the key of \<open>a\<close> and at most the key of \<open>b\<close>, and every step of the plan is a
  registered configuration.
\<close>

theorem get_version_operations_ascending:
  assumes "load_version_configs dir = Inr configs"
    and "\<forall>v \<in> fst ` set configs. version_num v \<noteq> None"
    and "version_num a = Some ka" and "version_num b = Some kb" and "ka < kb"
  shows "\<exists>ops ks. get_version_operations dir a b = Inr ops \<and>
           map (version_num \<circ> fst) ops = map Some ks \<and> sorted_wrt (<) ks \<and>
           (\<forall>k \<in> set ks. ka < k \<and> k \<le> kb) \<and> set ops \<subseteq> set configs"
proof -
  from path_loop_total[OF assms(2)] obtain p where
    p: "path_loop version_num configs True kb ka [] = Inr p" by blast
  from path_loop_up[OF p] obtain ks where
    ks: "map version_num p = map Some ks" "sorted_wrt (<) ks"
      "\<forall>k \<in> set ks. ka < k \<and> k \<le> kb" "set p \<subseteq> fst ` set configs"
    by auto
  from collect_operations_total[OF ks(4)] obtain ops where
    ops: "collect_operations configs p = Inr ops" by blast
  have res: "get_version_operations dir a b = Inr ops"
    using assms(1,3,4,5) p ops by (simp add: get_version_operations_def resolve_def)
  have "map fst ops = p" by (rule collect_operations_fst[OF ops])
  then have keys: "map (version_num \<circ> fst) ops = map Some ks"
    using ks(1) by (simp flip: map_map)
  have "set ops \<subseteq> set configs"
    using collect_operations_lookup[OF ops] by (auto dest: map_of_SomeD)
  with res keys ks(2,3) show ?thesis by blast
qed

theorem get_version_operations_ascending_witness:
  "load_version_configs demo_config_dir = Inr demo_configs \<and>
   version_num ''1.19.4'' = Some (97 / 5) \<and> version_num ''1.21'' = Some 21 \<and>
   (\<exists>ops ks. get_version_operations demo_config_dir ''1.19.4'' ''1.21'' = Inr ops \<and>
      map (version_num \<circ> fst) ops = map Some ks \<and> sorted_wrt (<) ks \<and>
      (\<forall>k \<in> set ks. 97 / 5 < k \<and> k \<le> 21) \<and> set ops \<subseteq> set demo_configs)"
proof -
  have "(97 / 5 :: rat) < 21" by simp
  from get_version_operations_ascending[OF load_demo_config_dir demo_keys_parse
      demo_keys(2) demo_keys(3) this]
  show ?thesis by (simp add: load_demo_config_dir demo_keys)
qed

text \<open>
  C2. Packaging a working tree under an exclusion set: no entry of the archive has a name
  in the exclusion set; every file of the tree whose normalized path (backslashes
  replaced by slashes) is not in the exclusion set is in the archive under that path; in
  particular every split target of a plan that is a file of the tree and is not excluded
  is in the archive.
\<close>

theorem archive_honours_exclusions:
  "(\<forall>(name, data) \<in> set (write_zip exclude_files tree []). name \<notin> exclude_files) \<and>
   (\<forall>(file_path, data) \<in> set tree.
      py_replace backslash ''/'' file_path \<notin> exclude_files \<longrightarrow>
      (py_replace backslash ''/'' file_path, data) \<in> set (write_zip exclude_files tree [])) \<and>
   (\<forall>operation \<in> set operations. \<forall>entry \<in> set (split_operations (snd operation)).
      \<forall>split \<in> set (snd entry). \<forall>data.
        (snd split, data) \<in> set tree \<and> py_replace backslash ''/'' (snd split) \<notin> exclude_files \<longrightarrow>
        (py_replace backslash ''/'' (snd split), data) \<in> set (write_zip exclude_files tree []))"
  unfolding set_write_zip by blast

theorem archive_honours_exclusions_witness:
  "write_zip {''a.png''} demo_tree [] = [(''b.png'', Blob ''b''), (''c.png'', Blob ''c'')] \<and>
   (''a.png'', Blob ''a'') \<notin> set (write_zip {''a.png''} demo_tree []) \<and>
   (''c.png'', Blob ''c'') \<in> set (write_zip {''a.png''} demo_tree [])"
  using archive_honours_exclusions[of "{''a.png''}" demo_tree demo_split_plan]
  by (simp add: demo_tree_def demo_split_plan_def backslash_def no_ops_def)

text \<open>
  C3, as amended. A conversion run that saves an archive, on a pack that holds the
  metadata file \<open>pack.mcmeta\<close>, with a plan none of whose operations can write under
  the file name \<open>pack.mcmeta\<close>: the rewrite has set \<open>pack.pack_format\<close> to the code of
  the target version, the table's value or 15 for a target that is not in the table,
  whatever the field held before; every archive entry named \<open>pack.mcmeta\<close> is the
  rewritten document, with that code; and the entry is in the archive unless the plan
  excludes it. The rewrite runs before the plan's operations, so the condition on the
  plan is needed: the run after the witness is one where it fails.
\<close>

theorem packaged_pack_format:
  assumes "distinct (map fst src)"
    and "exists_in src ''pack.mcmeta''"
    and "get_version_operations dir source target = Inr operations"
    and "\<forall>p \<in> write_names pf mcmeta operations. \<not> names_pack_mcmeta p"
    and "on_confirm pf dir mcmeta (Some src) temp_dir source target save_path = (t, Saved archive)"
  shows "\<exists>tree members' pack'.
      update_pack_mcmeta target src = Inr tree \<and>
      map_of tree ''pack.mcmeta'' = Some (Json (JObj members')) \<and>
      map_of members' ''pack'' = Some (JObj pack') \<and>
      map_of pack' ''pack_format'' = Some (JNum (format_code target)) \<and>
      format_code target = (case map_of version_format target of Some code \<Rightarrow> code | None \<Rightarrow> 15) \<and>
      (\<forall>data. (''pack.mcmeta'', data) \<in> set archive \<longrightarrow>
         data = Json (JObj members') \<and> pack_format_of data = Some (JNum (format_code target))) \<and>
      (''pack.mcmeta'' \<notin> removed_by operations \<longrightarrow>
         (''pack.mcmeta'', Json (JObj members')) \<in> set archive)"
proof -
  from assms(2) obtain original where orig: "map_of src ''pack.mcmeta'' = Some original"
    by (auto simp: exists_in_def)
  from assms(5) obtain tree0 where up0: "update_pack_mcmeta target src = Inr tree0"
    by (cases "update_pack_mcmeta target src")
      (auto simp: on_confirm_def convert_def remove_temp_dir_None)
  from update_pack_mcmeta_Inr[OF orig up0] obtain members pack where
    doc: "map_of src ''pack.mcmeta'' = Some (Json (JObj members))"
      "map_of members ''pack'' = Some (JObj pack)"
    using orig by auto
  define pack' where "pack' = AList.update ''pack_format'' (JNum (format_code target)) pack"
  define members' where "members' = AList.update ''pack'' (JObj pack') members"
  define tree where "tree = AList.update ''pack.mcmeta'' (Json (JObj members')) src"
  define final where "final = fold (process_operation pf src mcmeta) operations (tree, {})"
  have up: "update_pack_mcmeta target src = Inr tree"
    using update_pack_mcmeta_sets_format[OF doc]
    by (simp add: tree_def members'_def pack'_def)
  have tm: "map_of tree ''pack.mcmeta'' = Some (Json (JObj members'))"
    by (simp add: tree_def update_conv')
  have m: "map_of members' ''pack'' = Some (JObj pack')"
    by (simp add: members'_def update_conv')
  have p: "map_of pack' ''pack_format'' = Some (JNum (format_code target))"
    by (simp add: pack'_def update_conv')
  have pf_doc: "pack_format_of (Json (JObj members')) = Some (JNum (format_code target))"
    using m p by (simp add: pack_format_of_def)
  obtain success ex tree' where r: "run_operations pf src mcmeta operations (tree, {}) = (success, ex, tree')"
    by (cases "run_operations pf src mcmeta operations (tree, {})")
  from assms(5) have saved: "success \<and> archive = write_zip ex tree' []"
    by (simp add: on_confirm_def convert_def remove_temp_dir_None up
        process_version_conversion_def assms(3) r split: if_splits)
  with r have "fold (process_operation pf src mcmeta) operations (tree, {}) = (tree', ex)"
    by (simp add: run_operations_success)
  then have fin: "fst final = tree'" "snd final = ex" by (simp_all add: final_def)
  have archive: "archive = write_zip (snd final) (fst final) []"
    using saved fin by simp
  have nw: "''pack.mcmeta'' \<notin> write_targets pf mcmeta operations"
    using assms(4) write_targets_names[of pf mcmeta operations] names_pack_mcmeta_plain by blast
  have d: "distinct (map fst (fst final))"
    unfolding final_def by (rule plan_distinct) (simp add: tree_def distinct_update assms(1))
  have f: "map_of (fst final) ''pack.mcmeta'' = Some (Json (JObj members'))"
    unfolding final_def using plan_frame[OF nw] tm by simp
  have ex: "snd final = removed_by operations"
    by (simp add: final_def plan_exclusions)
  have plain: "py_replace backslash ''/'' ''pack.mcmeta'' = ''pack.mcmeta''"
    by (simp add: backslash_def)
  have only: "\<forall>data. (''pack.mcmeta'', data) \<in> set archive \<longrightarrow>
      data = Json (JObj members') \<and> pack_format_of data = Some (JNum (format_code target))"
  proof (intro allI impI)
    fix data
    assume "(''pack.mcmeta'', data) \<in> set archive"
    then obtain file_path where fp: "(file_path, data) \<in> set (fst final)"
      "py_replace backslash ''/'' file_path = ''pack.mcmeta''"
      by (auto simp: archive set_write_zip)
    have "file_path = ''pack.mcmeta''"
      by (rule normalized_name_plain[OF fp(2)]) simp
    with fp(1) d have "map_of (fst final) ''pack.mcmeta'' = Some data" by simp
    with f have "data = Json (JObj members')" by simp
    with pf_doc show "data = Json (JObj members') \<and> pack_format_of data = Some (JNum (format_code target))"
      by simp
  qed
  have present: "''pack.mcmeta'' \<notin> removed_by operations \<longrightarrow>
         (''pack.mcmeta'', Json (JObj members')) \<in> set archive"
  proof
    assume "''pack.mcmeta'' \<notin> removed_by operations"
    moreover have "(''pack.mcmeta'', Json (JObj members')) \<in> set (fst final)"
      by (rule map_of_SomeD[OF f])
    ultimately show "(''pack.mcmeta'', Json (JObj members')) \<in> set archive"
      using plain by (force simp: archive set_write_zip ex)
  qed
  have fc: "format_code target = (case map_of version_format target of Some code \<Rightarrow> code | None \<Rightarrow> 15)"
    by (simp add: format_code_def)
  from up tm m p fc only present show ?thesis by blast
qed

theorem packaged_pack_format_witness:
  "distinct (map fst demo_pack) \<and> exists_in demo_pack ''pack.mcmeta'' \<and>
   format_code ''1.21'' = 30 \<and>
   get_version_operations demo_split_dir ''1.20.4'' ''1.21'' = Inr demo_split_plan \<and>
   (\<exists>archive. on_confirm demo_platform demo_split_dir (\<lambda>v. None) (Some demo_pack) None
        ''1.20.4'' ''1.21'' ''out.zip'' = (None, Saved archive) \<and>
      map fst archive = [''b.png'', ''base.png'', ''pack.mcmeta'', ''c.png''] \<and>
      (''pack.mcmeta'', Json (JObj [(''pack'', JObj [(''pack_format'', JNum 30),
          (''description'', JStr ''demo'')])])) \<in> set archive)"
proof -
  have 1: "distinct (map fst demo_pack)" by (simp add: demo_pack_def)
  have 2: "exists_in demo_pack ''pack.mcmeta''" by (simp add: exists_in_def demo_pack_def)
  have d: "map_of demo_pack ''pack.mcmeta''
     = Some (Json (JObj [(''pack'', JObj [(''pack_format'', JNum 9), (''description'', JStr ''demo'')])]))"
    by (simp add: demo_pack_def)
  have e: "map_of [(''pack'', JObj [(''pack_format'', JNum 9), (''description'', JStr ''demo'')])] ''pack''
     = Some (JObj [(''pack_format'', JNum 9), (''description'', JStr ''demo'')])"
    by simp
  have 4: "\<forall>p \<in> write_names demo_platform (\<lambda>v. None) demo_split_plan. \<not> names_pack_mcmeta p"
    by (simp add: demo_split_plan_names names_pack_mcmeta_def basename_def lower_def)
  have fc: "format_code ''1.21'' = 30" by (simp add: format_code_def version_format_def)
  from demo_split_run obtain archive where
    run: "on_confirm demo_platform demo_split_dir (\<lambda>v. None) (Some demo_pack) None
        ''1.20.4'' ''1.21'' ''out.zip'' = (None, Saved archive)"
    and names: "map fst archive = [''b.png'', ''base.png'', ''pack.mcmeta'', ''c.png'']"
    by (elim exE conjE)
  from packaged_pack_format[OF 1 2 demo_split_dir_plan 4 run]
  obtain tree members' where
    r: "update_pack_mcmeta ''1.21'' demo_pack = Inr tree"
      "map_of tree ''pack.mcmeta'' = Some (Json (JObj members'))"
      "''pack.mcmeta'' \<notin> removed_by demo_split_plan \<longrightarrow>
         (''pack.mcmeta'', Json (JObj members')) \<in> set archive"
    by blast
  from r(1,2) have "members' = [(''pack'', JObj [(''pack_format'', JNum 30),
          (''description'', JStr ''demo'')])]"
    by (auto simp: update_pack_mcmeta_sets_format[OF d e] fc update_conv')
  with r(3) run names 1 2 fc show ?thesis
    by (auto simp: demo_split_plan_names demo_split_dir_plan)
qed

text \<open>
  A run on which the packaged field is not the target's code. The plan's one step has a
  transparency operation from \<open>other.json\<close> to \<open>pack.mcmeta\<close>: the rewrite has set
  the field to 30, the code of 1.21, then the step copies \<open>other.json\<close> over the file
  (the mask fails on a file that is no image and leaves the copy), and the archive holds
  \<open>pack.mcmeta\<close> with the field 4.
\<close>

theorem pack_format_overwritten:
  "exists_in cex_pack ''pack.mcmeta'' \<and>
   format_code ''1.21'' = 30 \<and>
   on_confirm demo_platform cex_config_dir (\<lambda>v. None) (Some cex_pack) None
       ''1.20.4'' ''1.21'' ''out.zip''
     = (None, Saved
         [(''pack.mcmeta'', Json (JObj [(''pack'', JObj [(''pack_format'', JNum 4)])])),
          (''other.json'', Json (JObj [(''pack'', JObj [(''pack_format'', JNum 4)])]))]) \<and>
   pack_format_of (Json (JObj [(''pack'', JObj [(''pack_format'', JNum 4)])])) = Some (JNum 4)"
  by (simp add: on_confirm_def convert_def remove_temp_dir_def update_pack_mcmeta_def
      set_pack_format_def format_code_def version_format_def cex_pack_def
      process_version_conversion_def cex_plan process_operation_def no_ops_def
      process_mcmeta_def backslash_def transparency_entry_def exists_in_def copy2_def
      apply_transparency_def demo_platform_def pack_format_of_def)

text \<open>
  C4. A configuration directory with one malformed record and one well-formed record.
  \<open>load_version_configs\<close> ends with the decoder's exception and returns no record at
  all, where the claim has the malformed record skipped and the well-formed one returned.
  \<open>get_available_versions\<close>, over the same directory, does skip the malformed file,
  prints a diagnostic for it and reads the versions of the well-formed one.
\<close>

theorem load_version_configs_malformed_aborts:
  "load_version_configs
     [(''1.20.2.json'', None), (''1.21.json'', Some (no_ops\<lparr>versions := Some [''1.21'']\<rparr>))]
     = Inl JSONDecodeError \<and>
   get_available_versions
     [(''1.20.2.json'', None), (''1.21.json'', Some (no_ops\<lparr>versions := Some [''1.21'']\<rparr>))]
     = ({''1.21''}, [''1.20.2.json''])"
  by (simp add: load_version_configs_def get_available_versions_def endswith_def no_ops_def)

text \<open>
  C5. A merge operation whose source path is missing from the working copy, the working
  copy holding every path of the source pack (it is a copy of it, and a step only adds
  paths): the merge leaves the working copy as it is, the merges of the same target and
  the whole step give what they give without that merge; when the other merges of the
  target have no source either and no other operation of the step writes the target, the
  step leaves the target as it was; and after the step the working copy still holds
  every path of the source pack. The step is a total function: nothing in it raises.
\<close>

theorem missing_merge_source_is_skipped:
  assumes "fst ` set src \<subseteq> fst ` set tree" and "\<not> exists_in tree (fst merge)"
  shows "merge_step pf src target_file merge tree = tree \<and>
         merge_entry pf src (target_file, before @ merge # after) tree
           = merge_entry pf src (target_file, before @ after) tree \<and>
         process_operation pf src mcmeta
             (version, cfg\<lparr>merge_operations := pre @ (target_file, before @ merge # after) # post\<rparr>)
             (tree, ex)
           = process_operation pf src mcmeta
               (version, cfg\<lparr>merge_operations := pre @ (target_file, before @ after) # post\<rparr>)
               (tree, ex) \<and>
         ((\<forall>m \<in> set (before @ after). \<not> exists_in src (fst m)) \<and>
          target_file \<notin> write_targets_of pf (mcmeta version) (cfg\<lparr>merge_operations := pre @ post\<rparr>)
          \<longrightarrow> map_of (fst (process_operation pf src mcmeta
                 (version, cfg\<lparr>merge_operations := pre @ (target_file, before @ merge # after) # post\<rparr>)
                 (tree, ex))) target_file
               = map_of tree target_file) \<and>
         fst ` set src \<subseteq> fst ` set (fst (process_operation pf src mcmeta (version, cfg) (tree, ex)))"
proof -
  from assms have missing: "\<not> exists_in src (fst merge)"
    by (auto simp: exists_in_iff)
  have skip: "\<And>t. merge_step pf src target_file merge t = t"
    by (rule merge_step_skip[OF missing])
  have entry: "\<And>t. merge_entry pf src (target_file, before @ merge # after) t
           = merge_entry pf src (target_file, before @ after) t"
    by (simp add: merge_entry_def skip)
  have step: "process_operation pf src mcmeta
             (version, cfg\<lparr>merge_operations := pre @ (target_file, before @ merge # after) # post\<rparr>)
             (tree, ex)
           = process_operation pf src mcmeta
               (version, cfg\<lparr>merge_operations := pre @ (target_file, before @ after) # post\<rparr>)
               (tree, ex)"
    by (simp add: process_operation_def Let_def entry
        process_mcmeta_split_operations[where cfg = "cfg\<lparr>merge_operations := pre @ (target_file, before @ merge # after) # post\<rparr>"
          and cfg' = "cfg\<lparr>merge_operations := pre @ (target_file, before @ after) # post\<rparr>"])
  have alone: "map_of (fst (process_operation pf src mcmeta
                 (version, cfg\<lparr>merge_operations := pre @ (target_file, before @ merge # after) # post\<rparr>)
                 (tree, ex))) target_file
               = map_of tree target_file"
    if a: "\<forall>m \<in> set (before @ after). \<not> exists_in src (fst m)"
      and b: "target_file \<notin> write_targets_of pf (mcmeta version) (cfg\<lparr>merge_operations := pre @ post\<rparr>)"
  proof -
    have "\<And>t. merge_entry pf src (target_file, before @ after) t = t"
      by (rule merge_entry_skip[OF a])
    then have "process_operation pf src mcmeta
               (version, cfg\<lparr>merge_operations := pre @ (target_file, before @ after) # post\<rparr>)
               (tree, ex)
         = process_operation pf src mcmeta (version, cfg\<lparr>merge_operations := pre @ post\<rparr>) (tree, ex)"
      by (simp add: process_operation_def Let_def
          process_mcmeta_split_operations[where cfg = "cfg\<lparr>merge_operations := pre @ (target_file, before @ after) # post\<rparr>"
            and cfg' = "cfg\<lparr>merge_operations := pre @ post\<rparr>"])
    moreover have "map_of (fst (process_operation pf src mcmeta
        (version, cfg\<lparr>merge_operations := pre @ post\<rparr>) (tree, ex))) target_file = map_of tree target_file"
      using b by (intro process_operation_frame) simp
    ultimately show ?thesis using step by simp
  qed
  have "fst ` set src \<subseteq> fst ` set (fst (process_operation pf src mcmeta (version, cfg) (tree, ex)))"
    using assms(1) process_operation_grows[of tree pf src mcmeta "(version, cfg)" ex] by blast
  with skip entry step alone show ?thesis by blast
qed

theorem missing_merge_source_is_skipped_witness:
  "fst ` set demo_pack \<subseteq> fst ` set demo_pack \<and> \<not> exists_in demo_pack ''overlay.png'' \<and>
   merge_step demo_platform demo_pack ''base.png'' (''overlay.png'', (4, 4)) demo_pack = demo_pack \<and>
   process_operation demo_platform demo_pack (\<lambda>v. None) (''1.21'', demo_merge) (demo_pack, {})
     = process_operation demo_platform demo_pack (\<lambda>v. None)
         (''1.21'', no_ops\<lparr>merge_operations := [(''base.png'', [])]\<rparr>) (demo_pack, {}) \<and>
   process_operation demo_platform demo_pack (\<lambda>v. None) (''1.21'', demo_merge) (demo_pack, {})
     = (demo_pack, {})"
proof -
  have m: "\<not> exists_in demo_pack (fst (''overlay.png'', (4 :: int, 4 :: int)))"
    by (simp add: exists_in_def demo_pack_def)
  have e: "process_operation demo_platform demo_pack (\<lambda>v. None)
         (''1.21'', no_ops\<lparr>merge_operations := [(''base.png'', [])]\<rparr>) (demo_pack, {}) = (demo_pack, {})"
    by (simp add: process_operation_def no_ops_def merge_entry_def process_mcmeta_def)
  from missing_merge_source_is_skipped[OF subset_refl m, where pf = demo_platform
      and target_file = "''base.png''" and before = "[]" and after = "[]" and mcmeta = "\<lambda>v. None"
      and version = "''1.21''" and cfg = no_ops and pre = "[]" and post = "[]" and ex = "{}"] m e
  show ?thesis by (simp add: demo_merge_def)
qed

text \<open>
  C6. The key of the version string \<open>1.21.1\<close>. \<open>replace\<close> removes every occurrence of
  \<open>1.\<close>, also the one inside \<open>21.1\<close>, so the key is 21, the key of \<open>1.21\<close>; removing
  only the leading prefix leaves \<open>21.1\<close>, the decimal number 21.1. With both
  versions registered, the resolver returns an empty plan from 1.21 to 1.21.1, and from
  1.20.4 to 1.21.1 a plan that stops at 1.21.
\<close>

theorem version_num_1_21_1:
  "version_num ''1.21.1'' = Some 21 \<and> version_num ''1.21'' = Some 21 \<and>
   py_replace ''1.'' '''' ''1.21.1'' = ''21'' \<and>
   py_float (drop 2 ''1.21.1'') = Some (211 / 10) \<and>
   get_version_operations [(''1.21.json'', Some no_ops), (''1.21.1.json'', Some no_ops)]
     ''1.21'' ''1.21.1'' = Inr [] \<and>
   get_version_operations [(''1.21.json'', Some no_ops), (''1.21.1.json'', Some no_ops)]
     ''1.20.4'' ''1.21.1'' = Inr [(''1.21'', no_ops)]"
  by (simp add: version_num_def py_float_def digit_val_def get_version_operations_def
      load_version_configs_def endswith_def resolve_def)

text \<open>
  C7. Masking is idempotent, on the image and on the file: applying the mask with the
  same keep area to a masked image changes nothing. The mask keeps the size, clears the
  alpha of every pixel of the image outside the keep area (bounds inclusive) and leaves
  every other pixel as it is.
\<close>

theorem transparency_idempotent:
  "mask_image keep_area (mask_image keep_area img) = mask_image keep_area img \<and>
   snd (apply_transparency image_path keep_area (snd (apply_transparency image_path keep_area tree)))
     = snd (apply_transparency image_path keep_area tree) \<and>
   width (mask_image keep_area img) = width img \<and> height (mask_image keep_area img) = height img \<and>
   pixels (mask_image keep_area img) (x, y) =
     (if x < width img \<and> y < height img \<and> \<not> in_keep_area keep_area x y
      then clear_alpha (pixels img (x, y)) else pixels img (x, y))"
  by (simp only: mask_image_idem apply_transparency_idem mask_image_size pixels_mask_image simp_thms)

text \<open>
  C8. The resolver is a total function (its loop has a termination proof). Over a
  configuration directory that loads and whose version names all have a key, resolution
  between two versions that have a key never raises, whether or not the target's key is
  registered: it returns the path the loop has built when it stops, which holds, in the
  order of travel, every registered key beyond the source's up to the target's, each
  with the first configuration that has the key. When the scan of the configurations
  finds no candidate, the loop returns the path built so far.
\<close>

theorem resolution_returns_path_built:
  assumes "load_version_configs dir = Inr configs"
    and "\<forall>v \<in> fst ` set configs. version_num v \<noteq> None"
    and "version_num a = Some ka" and "version_num b = Some kb"
  shows "\<exists>ops ks.
           get_version_operations dir a b = Inr ops \<and>
           map (version_num \<circ> fst) ops = map Some ks \<and>
           (if ka < kb
            then sorted_wrt (<) ks \<and>
                 set ks = {n. (\<exists>v \<in> fst ` set configs. version_num v = Some n) \<and> ka < n \<and> n \<le> kb}
            else sorted_wrt (>) ks \<and>
                 set ks = {n. (\<exists>v \<in> fst ` set configs. version_num v = Some n) \<and> n < ka \<and> kb \<le> n}) \<and>
           (\<forall>operation \<in> set ops. \<exists>pre post. configs = pre @ operation # post \<and>
              (\<forall>q \<in> set pre. version_num (fst q) \<noteq> version_num (fst operation))) \<and>
           (\<forall>cur version_path.
              select_next version_num (ka < kb) cur kb configs None = Inr None \<longrightarrow>
              path_loop version_num configs (ka < kb) kb cur version_path = Inr version_path)"
proof -
  from path_loop_total[OF assms(2)] obtain p where
    p: "path_loop version_num configs (ka < kb) kb ka [] = Inr p" by blast
  from path_loop_path[OF p] obtain ks where
    ks: "map version_num p = map Some ks"
      "sorted_wrt (\<lambda>x y. if ka < kb then x < y else y < x) ks"
      "set ks = {n. (\<exists>v \<in> fst ` set configs. version_num v = Some n) \<and> on_the_way (ka < kb) ka kb n}"
      "\<forall>v \<in> set p. \<exists>pre c post. configs = pre @ (v, c) # post \<and>
        (\<forall>q \<in> set pre. version_num (fst q) \<noteq> version_num v)"
    by auto
  from ks(4) have "set p \<subseteq> fst ` set configs" by force
  from collect_operations_total[OF this] obtain ops where
    ops: "collect_operations configs p = Inr ops" by blast
  have res: "get_version_operations dir a b = Inr ops"
    using assms(1,3,4) p ops by (simp add: get_version_operations_def resolve_def)
  have "map fst ops = p" by (rule collect_operations_fst[OF ops])
  then have keys: "map (version_num \<circ> fst) ops = map Some ks"
    using ks(1) by (simp flip: map_map)
  have order: "if ka < kb
            then sorted_wrt (<) ks \<and>
                 set ks = {n. (\<exists>v \<in> fst ` set configs. version_num v = Some n) \<and> ka < n \<and> n \<le> kb}
            else sorted_wrt (>) ks \<and>
                 set ks = {n. (\<exists>v \<in> fst ` set configs. version_num v = Some n) \<and> n < ka \<and> kb \<le> n}"
  proof (cases "ka < kb")
    case True
    with ks(2,3) show ?thesis by (simp add: on_the_way_def)
  next
    case False
    with ks(2,3) show ?thesis by (simp add: on_the_way_def)
  qed
  have first: "\<forall>operation \<in> set ops. \<exists>pre post. configs = pre @ operation # post \<and>
              (\<forall>q \<in> set pre. version_num (fst q) \<noteq> version_num (fst operation))"
    by (rule collect_operations_first[OF ops ks(4)])
  have gap: "\<forall>cur version_path.
              select_next version_num (ka < kb) cur kb configs None = Inr None \<longrightarrow>
              path_loop version_num configs (ka < kb) kb cur version_path = Inr version_path"
    by simp
  from res keys order first gap show ?thesis by blast
qed

theorem resolution_returns_path_built_witness:
  "load_version_configs demo_config_dir = Inr demo_configs \<and>
   version_num ''1.19.4'' = Some (97 / 5) \<and> version_num ''1.20.4'' = Some (102 / 5) \<and>
   (\<exists>ops ks. get_version_operations demo_config_dir ''1.19.4'' ''1.20.4'' = Inr ops \<and>
      map (version_num \<circ> fst) ops = map Some ks \<and> sorted_wrt (<) ks \<and>
      set ks = {n. (\<exists>v \<in> fst ` set demo_configs. version_num v = Some n) \<and> 97 / 5 < n \<and> n \<le> 102 / 5}) \<and>
   get_version_operations demo_config_dir ''1.19.4'' ''1.20.4''
     = Inr [(''1.20.2'', no_ops\<lparr>versions := Some [''1.20.2'', ''1.20.4'']\<rparr>)] \<and>
   select_next version_num True (101 / 5) (102 / 5) demo_configs None = Inr None \<and>
   get_version_operations demo_config_dir ''1.16.5'' ''1.18.2'' = Inr []"
proof -
  have lt: "(97 / 5 :: rat) < 102 / 5" by simp
  from resolution_returns_path_built[OF load_demo_config_dir demo_keys_parse
      demo_keys(2) demo_keys(6)] lt
  have 1: "\<exists>ops ks. get_version_operations demo_config_dir ''1.19.4'' ''1.20.4'' = Inr ops \<and>
      map (version_num \<circ> fst) ops = map Some ks \<and> sorted_wrt (<) ks \<and>
      set ks = {n. (\<exists>v \<in> fst ` set demo_configs. version_num v = Some n) \<and> 97 / 5 < n \<and> n \<le> 102 / 5}"
    by auto
  have 2: "get_version_operations demo_config_dir ''1.19.4'' ''1.20.4''
     = Inr [(''1.20.2'', no_ops\<lparr>versions := Some [''1.20.2'', ''1.20.4'']\<rparr>)]"
    by (simp add: get_version_operations_def load_demo_config_dir resolve_def demo_keys demo_configs_def)
  have 3: "select_next version_num True (101 / 5) (102 / 5) demo_configs None = Inr None"
    by (simp add: demo_configs_def demo_keys)
  have 4: "get_version_operations demo_config_dir ''1.16.5'' ''1.18.2'' = Inr []"
    by (simp add: get_version_operations_def load_demo_config_dir resolve_def demo_keys demo_configs_def)
  from 1 2 3 4 show ?thesis by (simp add: load_demo_config_dir demo_keys)
qed

text \<open>
  C9. When \<open>on_confirm\<close> returns, the temporary directory does not exist: whatever the
  pack, the configurations, the versions and the answer of the save dialog, so on the
  path that saves the archive, on the path of a caught exception and on the path that
  saves nothing.
\<close>

theorem temp_dir_removed:
  "fst (on_confirm pf dir mcmeta pack temp_dir source target save_path) = None"
  by (simp add: on_confirm_def remove_temp_dir_def split: prod.splits option.splits)

text \<open>
  C10. Two working copies that hold the same content at the plan's merge targets, and in
  which the same sidecar originals exist, processed by the same plan over the same source
  pack: at every path where the two copies agree, the results agree, and the exclusion
  sets are equal. So what a working copy holds at any other path, a split or transparency
  source included, has no effect on what the plan writes. A split, merge or
  transparency entry whose source does not exist in the source pack does nothing,
  whatever the working copy holds; and a path that is not a write target of the plan
  keeps its content.
\<close>

theorem source_images_read_from_source_pack:
  assumes "\<forall>q \<in> merge_targets operations. map_of t1 q = map_of t2 q"
    and "\<forall>q \<in> sidecar_originals pf mcmeta operations. exists_in t1 q = exists_in t2 q"
    and "map_of t1 p = map_of t2 p"
  shows "map_of (fst (fold (process_operation pf src mcmeta) operations (t1, ex))) p
           = map_of (fst (fold (process_operation pf src mcmeta) operations (t2, ex))) p \<and>
         snd (fold (process_operation pf src mcmeta) operations (t1, ex))
           = snd (fold (process_operation pf src mcmeta) operations (t2, ex)) \<and>
         (\<not> exists_in src source_file \<longrightarrow>
            split_entry pf src (source_file, splits) t1 = t1 \<and>
            merge_step pf src target_file (source_file, position) t1 = t1 \<and>
            transparency_entry src (source_file, target, keep_area) t1 = t1) \<and>
         (p \<notin> write_targets pf mcmeta operations \<longrightarrow>
            map_of (fst (fold (process_operation pf src mcmeta) operations (t1, ex))) p = map_of t1 p)"
proof -
  let ?A = "insert p (merge_targets operations)"
  let ?S = "sidecar_originals pf mcmeta operations"
  have "observes_same ?A ?S t1 t2"
    using assms by (simp add: observes_same_def)
  from plan_same[where A = ?A and S = ?S and src = src and ex = ex and mcmeta = mcmeta and pf = pf
      and operations = operations, OF _ _ this]
  have "observes_same ?A ?S (fst (fold (process_operation pf src mcmeta) operations (t1, ex)))
           (fst (fold (process_operation pf src mcmeta) operations (t2, ex)))"
    and e: "snd (fold (process_operation pf src mcmeta) operations (t1, ex))
           = snd (fold (process_operation pf src mcmeta) operations (t2, ex))"
    by auto
  then have "map_of (fst (fold (process_operation pf src mcmeta) operations (t1, ex))) p
           = map_of (fst (fold (process_operation pf src mcmeta) operations (t2, ex))) p"
    by (simp add: observes_same_def)
  with e assms(3) show ?thesis
    by (simp add: split_entry_def merge_step_def transparency_entry_def plan_frame)
qed

theorem source_images_read_from_source_pack_witness:
  "map_of demo_touched ''b.png'' \<noteq> map_of demo_pack ''b.png'' \<and>
   map_of demo_touched ''c.png'' = map_of demo_pack ''c.png'' \<and>
   map_of (fst (fold (process_operation demo_platform demo_pack (\<lambda>v. None)) demo_split_plan
                  (demo_touched, {}))) ''c.png''
     = map_of (fst (fold (process_operation demo_platform demo_pack (\<lambda>v. None)) demo_split_plan
                  (demo_pack, {}))) ''c.png'' \<and>
   map_of (fst (fold (process_operation demo_platform demo_pack (\<lambda>v. None)) demo_split_plan
                  (demo_pack, {}))) ''c.png''
     = map_option Image (demo_crop (flat_image 16 16 (9, 9, 9, 255)) (0, 0, 8, 8))"
proof -
  have 1: "\<forall>q \<in> merge_targets demo_split_plan. map_of demo_touched q = map_of demo_pack q"
    by (simp add: demo_plan_observes)
  have 2: "\<forall>q \<in> sidecar_originals demo_platform (\<lambda>v. None) demo_split_plan.
      exists_in demo_touched q = exists_in demo_pack q"
    by (simp add: demo_plan_observes)
  have 3: "map_of demo_touched ''c.png'' = map_of demo_pack ''c.png''"
    by (simp add: demo_touched_def demo_pack_def)
  have 4: "map_of demo_touched ''b.png'' \<noteq> map_of demo_pack ''b.png''"
    by (simp add: demo_touched_def demo_pack_def flat_image_def)
  have 5: "map_of (fst (fold (process_operation demo_platform demo_pack (\<lambda>v. None)) demo_split_plan
                  (demo_pack, {}))) ''c.png''
     = map_option Image (demo_crop (flat_image 16 16 (9, 9, 9, 255)) (0, 0, 8, 8))"
    by (simp add: demo_split_plan_def process_operation_def no_ops_def split_entry_def
        split_step_def split_image_def exists_in_def demo_pack_def demo_platform_def
        process_mcmeta_def demo_crop_def update_conv')
  from source_images_read_from_source_pack[OF 1 2 3, of demo_pack "{}"] 3 4 5
  show ?thesis by simp
qed

end
